theory Spec2Isabelle
  imports Main "HOL-Library.Word"
begin

unbundle bit_operations_syntax

section \<open>The program: mine.c\<close>

text \<open>
  A shallow embedding of \<^verbatim>\<open>mine.c\<close>: one producer (\<^verbatim>\<open>main\<close>) hands batches
  of nonces to worker threads (\<^verbatim>\<open>mine\<close>) through the single pointer
  \<^verbatim>\<open>task_pointer\<close>; a worker hashes block data followed by the nonce in decimal and
  compares the front 32 bits of the digest with the difficulty mask.

  \<^verbatim>\<open>uint32_t\<close> is \<open>32 word\<close>, \<^verbatim>\<open>uint64_t\<close> is \<open>64 word\<close>, \<^verbatim>\<open>uint8_t\<close> is
  \<open>8 word\<close>; C strings are \<open>char list\<close>s in memory, ended by the byte 0.
\<close>

subsection \<open>Constants\<close>

definition NONCES_PER_TASK :: nat where
  "NONCES_PER_TASK = 120"

definition UINT64_MAX :: "64 word" where
  "UINT64_MAX = 18446744073709551615"

subsection \<open>\<^verbatim>\<open>get_difficulty\<close>\<close>

text \<open>
  \<^verbatim>\<open>for(i = 0; i < 32 - diff; i++){ uint32_t position = 1 << i; mask = mask | position; }\<close>
  The argument is a C \<^verbatim>\<open>int\<close>, here an \<open>int\<close>. The shift is taken on 32-bit words:
  for \<open>i = 31\<close> the C expression \<^verbatim>\<open>1 << 31\<close> is converted to the \<^verbatim>\<open>uint32_t\<close>
  \<open>2 ^ 31\<close>. For a negative \<open>diff\<close> the loop reaches \<open>i \<ge> 32\<close>, where the C shift
  is undefined; \<open>push_bit\<close> gives 0 there. No statement below is about a negative \<open>diff\<close>.
  The local \<^verbatim>\<open>mask\<close> is written \<open>msk\<close>.
\<close>

function get_difficulty_loop :: "int \<Rightarrow> int \<Rightarrow> 32 word \<Rightarrow> 32 word" where
  "get_difficulty_loop diff i msk =
     (if i < 32 - diff
      then get_difficulty_loop diff (i + 1) (msk OR push_bit (nat i) 1)
      else msk)"
  by pat_completeness auto
termination
  by (relation "measure (\<lambda>(diff, i, msk). nat (32 - diff - i))") auto

declare get_difficulty_loop.simps [simp del]

definition get_difficulty :: "int \<Rightarrow> 32 word" where
  "get_difficulty diff = get_difficulty_loop diff 0 0"

subsection \<open>C strings and the input of the hash\<close>

text \<open>
  A \<^verbatim>\<open>char *\<close> is the memory it points to, as a list of bytes; the string it denotes
  is the part before the first byte 0. \<^verbatim>\<open>strlen\<close>, \<^verbatim>\<open>strcpy\<close>, \<^verbatim>\<open>strcat\<close> and
  \<^verbatim>\<open>sprintf("%llu")\<close> are the C library's: they are written here as the C standard
  describes them, on buffers. A write past the end of a buffer would make the list longer
  than the buffer was; lemmas \<open>sprintf_llu_fits\<close> and \<open>mine_input_fits\<close> show that this does
  not happen.
\<close>

abbreviation NUL :: char where
  "NUL \<equiv> CHR 0x00"

definition c_str :: "string \<Rightarrow> string" where
  "c_str mem = takeWhile (\<lambda>c. c \<noteq> NUL) mem"

definition strlen :: "string \<Rightarrow> nat" where
  "strlen mem = length (takeWhile (\<lambda>c. c \<noteq> NUL) mem)"

definition strcpy :: "string \<Rightarrow> string \<Rightarrow> string" where
  "strcpy dst src = take (strlen src + 1) src @ drop (strlen src + 1) dst"

definition strcat_c :: "string \<Rightarrow> string \<Rightarrow> string" where
  "strcat_c dst src =
     take (strlen dst) dst @ take (strlen src + 1) src
       @ drop (strlen dst + strlen src + 1) dst"

definition digit_char :: "nat \<Rightarrow> char" where
  "digit_char d = ''0123456789'' ! d"

function utoa :: "nat \<Rightarrow> string" where
  "utoa n = (if n < 10 then [digit_char n] else utoa (n div 10) @ [digit_char (n mod 10)])"
  by pat_completeness auto
termination
  by (relation "measure id") auto

declare utoa.simps [simp del]

definition sprintf_llu :: "string \<Rightarrow> 64 word \<Rightarrow> string" where
  "sprintf_llu buf n = (let ds = utoa (unat n) in ds @ [NUL] @ drop (length ds + 1) buf)"

text \<open>
  \<^verbatim>\<open>char buf[21]\<close> and the block returned by \<^verbatim>\<open>malloc\<close> start with indeterminate
  contents: \<open>u\<close> gives the byte found at each offset.
\<close>

definition uninit_block :: "(nat \<Rightarrow> char) \<Rightarrow> nat \<Rightarrow> string" where
  "uninit_block u n = map u [0..<n]"

text \<open>Lines 245 to 254 of \<^verbatim>\<open>mine\<close>: the buffer \<^verbatim>\<open>tmp_str\<close> handed to \<^verbatim>\<open>sha1sum\<close>.\<close>

definition mine_input :: "(nat \<Rightarrow> char) \<Rightarrow> string \<Rightarrow> 64 word \<Rightarrow> string" where
  "mine_input u block_data n =
     (let buf = sprintf_llu (uninit_block u 21) n;
          str_size = strlen buf + strlen block_data;
          tmp_str = uninit_block u (str_size + 1);
          tmp_str = strcpy tmp_str block_data;
          tmp_str = strcat_c tmp_str buf
      in tmp_str)"

text \<open>
  What the specification calls the canonical base-10 representation of \<open>n\<close>, stated
  independently of \<open>utoa\<close>: a non-empty string of decimal digits, without a leading zero
  unless it is the string \<open>0\<close>, whose value is \<open>n\<close>.
\<close>

definition digit_val :: "char \<Rightarrow> nat" where
  "digit_val c = of_char c - 48"

definition decimal_value :: "string \<Rightarrow> nat" where
  "decimal_value s = foldl (\<lambda>acc c. 10 * acc + digit_val c) 0 s"

definition canonical_decimal :: "string \<Rightarrow> nat \<Rightarrow> bool" where
  "canonical_decimal s n \<longleftrightarrow>
     s \<noteq> [] \<and> (\<forall>c \<in> set s. c \<in> set ''0123456789'') \<and>
     (hd s = CHR ''0'' \<longrightarrow> s = ''0'') \<and> decimal_value s = n"

subsection \<open>Digests and the difficulty test\<close>

text \<open>
  \<^verbatim>\<open>sha1.c\<close> is included by \<^verbatim>\<open>mine.c\<close> but is not among the sources. \<^verbatim>\<open>sha1sum\<close> is
  a parameter of the model: any function from the hashed string to the bytes of
  \<^verbatim>\<open>uint8_t digest[20]\<close>. The environment of a run collects it with what \<^verbatim>\<open>main\<close>
  fixes before the threads start (\<^verbatim>\<open>bitcoin_block_data\<close>, \<^verbatim>\<open>difficulty_mask\<close>) and the
  contents of uninitialised memory.
\<close>

record env =
  sha1sum :: "string \<Rightarrow> 8 word list"
  uninit :: "nat \<Rightarrow> char"
  bitcoin_block_data :: string
  difficulty_mask :: "32 word"

text \<open>
  Modelled from the spec: \<^verbatim>\<open>sha1tostring\<close> of the absent \<^verbatim>\<open>sha1.c\<close>, which writes the
  digest into \<^verbatim>\<open>solution_hash[41]\<close> as text. The specification reports the digest in hex,
  and the sample output in the header of \<^verbatim>\<open>mine.c\<close> shows forty upper-case hex digits.
\<close>

definition hex_digit :: "nat \<Rightarrow> char" where
  "hex_digit d = ''0123456789ABCDEF'' ! d"

fun sha1tostring :: "8 word list \<Rightarrow> string" where
  "sha1tostring [] = []"
| "sha1tostring (b # bs) =
     hex_digit (unat b div 16) # hex_digit (unat b mod 16) # sha1tostring bs"

text \<open>
  Lines 265 to 269. \<^verbatim>\<open>digest[0] << 24\<close> is computed in \<^verbatim>\<open>int\<close> and stored into the
  \<^verbatim>\<open>uint32_t\<close> by \<^verbatim>\<open>|=\<close>: on 32-bit words this is the shift of the zero-extended byte
  (for \<^verbatim>\<open>digest[0] >= 128\<close> the \<^verbatim>\<open>int\<close> result has its sign bit set, and its conversion
  to \<^verbatim>\<open>uint32_t\<close> has the same bits).
\<close>

definition hash_front :: "8 word list \<Rightarrow> 32 word" where
  "hash_front digest =
     (let h = 0;
          h = h OR push_bit 24 (ucast (digest ! 0));
          h = h OR push_bit 16 (ucast (digest ! 1));
          h = h OR push_bit 8 (ucast (digest ! 2));
          h = h OR ucast (digest ! 3)
      in h)"

text \<open>
  The specification's \<open>leadingBits\<close>: the first four bytes of the digest read as a
  big-endian unsigned number.
\<close>

definition leadingBits :: "8 word list \<Rightarrow> nat" where
  "leadingBits digest =
     unat (digest ! 0) * 2 ^ 24 + unat (digest ! 1) * 2 ^ 16
       + unat (digest ! 2) * 2 ^ 8 + unat (digest ! 3)"

text \<open>
  The digest computed for one nonce (lines 245 to 258): \<^verbatim>\<open>sha1sum\<close> is given the pointer
  \<^verbatim>\<open>tmp_str\<close>, here the C string found there. And the test of line 274.
\<close>

definition nonce_digest :: "env \<Rightarrow> 64 word \<Rightarrow> 8 word list" where
  "nonce_digest E n = sha1sum E (c_str (mine_input (uninit E) (bitcoin_block_data E) n))"

definition accepts :: "env \<Rightarrow> 64 word \<Rightarrow> bool" where
  "accepts E n \<longleftrightarrow>
     (hash_front (nonce_digest E n) AND difficulty_mask E) = hash_front (nonce_digest E n)"

subsection \<open>The loops over one task\<close>

text \<open>
  Lines 105 to 115 of \<^verbatim>\<open>main\<close>: \<^verbatim>\<open>nonces[i] = current_nonce++\<close> for
  \<open>i = 0, \<dots>, NONCES_PER_TASK - 1\<close>, on a fresh array. The array comes from
  \<^verbatim>\<open>malloc\<close>; every cell is written before the array is published (lemma
  \<open>fill_nonces_any_array\<close>), so its initial contents are taken to be zeros. The progress
  dot printed every 1000000 nonces is output only and is left out.
\<close>

function fill_nonces :: "nat \<Rightarrow> 64 word list \<Rightarrow> 64 word \<Rightarrow> 64 word list \<times> 64 word" where
  "fill_nonces i nonces current_nonce =
     (if i < NONCES_PER_TASK
      then fill_nonces (i + 1) (nonces[i := current_nonce]) (current_nonce + 1)
      else (nonces, current_nonce))"
  by pat_completeness auto
termination
  by (relation "measure (\<lambda>(i, nonces, current_nonce). NONCES_PER_TASK - i)") auto

declare fill_nonces.simps [simp del]

definition new_task :: "64 word \<Rightarrow> 64 word list \<times> 64 word" where
  "new_task current_nonce = fill_nonces 0 (replicate NONCES_PER_TASK 0) current_nonce"

text \<open>
  Lines 243 to 283 of \<^verbatim>\<open>mine\<close>: the first nonce of the task, in index order, that
  passes the test, with its digest; \<open>None\<close> when the loop runs to its end.
\<close>

function mine_loop :: "env \<Rightarrow> 64 word list \<Rightarrow> nat \<Rightarrow> (64 word \<times> 8 word list) option" where
  "mine_loop E task_nonces i =
     (if i < NONCES_PER_TASK
      then (if accepts E (task_nonces ! i)
            then Some (task_nonces ! i, nonce_digest E (task_nonces ! i))
            else mine_loop E task_nonces (i + 1))
      else None)"
  by pat_completeness auto
termination
  by (relation "measure (\<lambda>(E, task_nonces, i). NONCES_PER_TASK - i)") auto

declare mine_loop.simps [simp del]

subsection \<open>Threads and shared state\<close>

text \<open>
  \<^verbatim>\<open>struct thread_info\<close> without the thread handle. \<^verbatim>\<open>calloc\<close> zeroes it, so
  \<open>solution_hash\<close> starts as the empty string.
\<close>

record thread_info =
  thread_id :: nat
  num_inversions :: "64 word"
  nonce :: "64 word"
  solution_hash :: string

text \<open>
  Where a thread stands. \<^verbatim>\<open>main\<close>: about to fill a task (line 103), holding a filled task
  in front of the lock (line 119), or past the loop. A worker: in front of the lock
  (line 218), holding a claimed task in front of the \<^verbatim>\<open>for\<close> loop (line 243), or returned.
\<close>

datatype main_pc = M_fill | M_publish "64 word list" | M_exit

datatype mine_pc = T_claim | T_mine "64 word list" | T_exit

record thread =
  pc :: mine_pc
  info :: thread_info

record state =
  current_nonce :: "64 word"
  task_pointer :: "64 word list option"
  solution_found :: bool
  main_at :: main_pc
  threads :: "thread list"

text \<open>
  Lines 119 to 134, the critical section of \<^verbatim>\<open>main\<close>, which runs under
  \<^verbatim>\<open>task_mutex\<close>, as one atomic step on the shared state. \<open>P_blocked\<close>: the thread
  stays in \<^verbatim>\<open>pthread_cond_wait\<close> and nothing changes. Line 275 writes
  \<^verbatim>\<open>solution_found\<close> without the lock, but it only ever writes \<^verbatim>\<open>true\<close>: the wait
  loop is left either without reading the flag (\<^verbatim>\<open>task_pointer\<close> is \<^verbatim>\<open>NULL\<close>) or on
  having read it true, after which line 123 reads true again. So the section behaves as
  if it read the flag once.
\<close>

datatype publish_outcome = P_blocked | P_terminated | P_published

definition publish :: "64 word list \<Rightarrow> state \<Rightarrow> publish_outcome \<times> state" where
  "publish nonces s =
     (if task_pointer s \<noteq> None \<and> \<not> solution_found s then (P_blocked, s)
      else if solution_found s then (P_terminated, s)
      else (P_published, s\<lparr>task_pointer := Some nonces\<rparr>))"

text \<open>
  Lines 218 to 240, the critical section of \<^verbatim>\<open>mine\<close>, in the same way. The last case
  of the definition cannot occur: it is there to make the \<open>case\<close> complete.
\<close>

datatype claim_outcome = C_blocked | C_terminated | C_task "64 word list"

definition claim :: "state \<Rightarrow> claim_outcome \<times> state" where
  "claim s =
     (if task_pointer s = None \<and> \<not> solution_found s then (C_blocked, s)
      else if solution_found s then (C_terminated, s)
      else (case task_pointer s of
              Some task_nonces \<Rightarrow> (C_task task_nonces, s\<lparr>task_pointer := None\<rparr>)
            | None \<Rightarrow> (C_blocked, s)))"

text \<open>One step of \<^verbatim>\<open>main\<close>: the guard of line 103 and the fill, or the critical section.\<close>

definition main_step :: "state \<Rightarrow> state" where
  "main_step s =
     (case main_at s of
        M_fill \<Rightarrow>
          (if current_nonce s < UINT64_MAX
           then (case new_task (current_nonce s) of
                   (nonces, c) \<Rightarrow> s\<lparr>current_nonce := c, main_at := M_publish nonces\<rparr>)
           else s\<lparr>main_at := M_exit\<rparr>)
      | M_publish nonces \<Rightarrow>
          (case publish nonces s of
             (P_blocked, s') \<Rightarrow> s'
           | (P_terminated, s') \<Rightarrow> s'\<lparr>main_at := M_exit\<rparr>
           | (P_published, s') \<Rightarrow> s'\<lparr>main_at := M_fill\<rparr>)
      | M_exit \<Rightarrow> s)"

text \<open>
  One step of worker \<open>t\<close>: the critical section, or the whole \<^verbatim>\<open>for\<close> loop over the
  claimed task with what follows it (lines 274 to 281 on a match, line 286 otherwise).
  The loop reads only the task, the block data and the mask, none of which another thread
  writes, so taking it as one step loses no behaviour. The write of line 275 is the
  unconditional assignment \<^verbatim>\<open>solution_found = true\<close>; it is made without the lock, and
  the accesses to the flag are taken to be sequentially consistent. \<^verbatim>\<open>free\<close> is not
  modelled.
\<close>

definition mine_step :: "env \<Rightarrow> nat \<Rightarrow> state \<Rightarrow> state" where
  "mine_step E t s =
     (if t < length (threads s) then
        (let th = threads s ! t in
         case pc th of
           T_claim \<Rightarrow>
             (case claim s of
                (C_blocked, s') \<Rightarrow> s'
              | (C_terminated, s') \<Rightarrow> s'\<lparr>threads := (threads s')[t := th\<lparr>pc := T_exit\<rparr>]\<rparr>
              | (C_task task_nonces, s') \<Rightarrow>
                  s'\<lparr>threads := (threads s')[t := th\<lparr>pc := T_mine task_nonces\<rparr>]\<rparr>)
         | T_mine task_nonces \<Rightarrow>
             (case mine_loop E task_nonces 0 of
                Some (n, digest) \<Rightarrow>
                  s\<lparr>solution_found := True,
                    threads := (threads s)[t := th\<lparr>pc := T_exit,
                      info := (info th)\<lparr>nonce := n, solution_hash := sha1tostring digest\<rparr>\<rparr>]\<rparr>
              | None \<Rightarrow>
                  s\<lparr>threads := (threads s)[t := th\<lparr>pc := T_claim,
                      info := (info th)\<lparr>num_inversions :=
                        num_inversions (info th) + word_of_nat NONCES_PER_TASK\<rparr>\<rparr>]\<rparr>)
         | T_exit \<Rightarrow> s)
      else s)"

text \<open>
  A run is a schedule: the list of the threads that take the successive steps. A thread
  scheduled while it is blocked or finished leaves the state as it is.
\<close>

datatype event = Main | Worker nat

fun step :: "env \<Rightarrow> event \<Rightarrow> state \<Rightarrow> state" where
  "step E Main s = main_step s"
| "step E (Worker t) s = mine_step E t s"

fun run :: "env \<Rightarrow> event list \<Rightarrow> state \<Rightarrow> state" where
  "run E [] s = s"
| "run E (e # es) s = run E es (step E e s)"

fun trace :: "env \<Rightarrow> event list \<Rightarrow> state \<Rightarrow> state list" where
  "trace E [] s = [s]"
| "trace E (e # es) s = s # trace E es (step E e s)"

text \<open>Lines 86 to 102: the state when the threads have been created.\<close>

definition new_thread :: "nat \<Rightarrow> thread" where
  "new_thread i =
     \<lparr>pc = T_claim,
      info = \<lparr>thread_id = i, num_inversions = 0, nonce = 0, solution_hash = []\<rparr>\<rparr>"

definition init :: "nat \<Rightarrow> state" where
  "init num_threads =
     \<lparr>current_nonce = 0, task_pointer = None, solution_found = False, main_at = M_fill,
      threads = map new_thread [0..<num_threads]\<rparr>"

definition completed :: "state \<Rightarrow> bool" where
  "completed s \<longleftrightarrow> main_at s = M_exit \<and> list_all (\<lambda>th. pc th = T_exit) (threads s)"

subsection \<open>\<^verbatim>\<open>print_results\<close>\<close>

text \<open>
  The loop of \<^verbatim>\<open>print_results\<close>: a record is reported as a solution when
  \<^verbatim>\<open>strlen(solution_hash) > 0\<close>, and \<^verbatim>\<open>total_inversions\<close> adds the counts in
  \<^verbatim>\<open>uint64_t\<close>.
\<close>

definition has_solution :: "thread_info \<Rightarrow> bool" where
  "has_solution r \<longleftrightarrow> 0 < length (solution_hash r)"

fun solutions :: "thread_info list \<Rightarrow> thread_info list" where
  "solutions [] = []"
| "solutions (r # rs) = (if has_solution r then r # solutions rs else solutions rs)"

fun total_inversions :: "thread_info list \<Rightarrow> 64 word" where
  "total_inversions [] = 0"
| "total_inversions (r # rs) = num_inversions r + total_inversions rs"

definition records :: "state \<Rightarrow> thread_info list" where
  "records s = map info (threads s)"

subsection \<open>Observations on runs\<close>

text \<open>How often a list of flag values goes from false to true, and from true to false.\<close>

fun rises :: "bool list \<Rightarrow> nat" where
  "rises (a # b # bs) = (if \<not> a \<and> b then 1 else 0) + rises (b # bs)"
| "rises bs = 0"

fun falls :: "bool list \<Rightarrow> nat" where
  "falls (a # b # bs) = (if a \<and> \<not> b then 1 else 0) + falls (b # bs)"
| "falls bs = 0"

text \<open>The number of candidates \<^verbatim>\<open>main\<close> generates along a schedule.\<close>

fun generated :: "env \<Rightarrow> event list \<Rightarrow> state \<Rightarrow> nat" where
  "generated E [] s = 0"
| "generated E (e # es) s =
     (if e = Main \<and> main_at s = M_fill \<and> current_nonce s < UINT64_MAX
      then NONCES_PER_TASK else 0) + generated E es (step E e s)"

fun processed :: "thread_info list \<Rightarrow> nat" where
  "processed [] = 0"
| "processed (r # rs) = unat (num_inversions r) + processed rs"

text \<open>
  The tasks \<^verbatim>\<open>main\<close> publishes, in order, when every task is claimed and no solution
  stops it: the loop of lines 103 to 135 with the critical section always published.
\<close>

fun published :: "nat \<Rightarrow> 64 word \<Rightarrow> 64 word list list" where
  "published 0 cur = []"
| "published (Suc k) cur =
     (if cur < UINT64_MAX
      then (case new_task cur of (nonces, c) \<Rightarrow> nonces # published k c)
      else [])"

text \<open>
  The tasks that the critical section of \<^verbatim>\<open>main\<close> stores into \<^verbatim>\<open>task_pointer\<close> along
  a schedule, in order.
\<close>

fun publications :: "env \<Rightarrow> event list \<Rightarrow> state \<Rightarrow> 64 word list list" where
  "publications E [] s = []"
| "publications E (e # es) s =
     (case (e, main_at s) of
        (Main, M_publish nonces) \<Rightarrow>
          (if fst (publish nonces s) = P_published then [nonces] else [])
      | _ \<Rightarrow> [])
     @ publications E es (step E e s)"

text \<open>The specification's batch: \<open>NONCES_PER_TASK\<close> consecutive candidates from \<open>c\<close> on.\<close>

definition task_at :: "64 word \<Rightarrow> 64 word list" where
  "task_at c = map (\<lambda>j. c + word_of_nat j) [0..<NONCES_PER_TASK]"

text \<open>
  The oracle of the specification: the test of line 274 applied to the candidates
  \<open>c, c + 1, \<dots>\<close> in turn, at most \<open>fuel\<close> of them; and what it is to be the smallest
  candidate that passes.
\<close>

fun sequential_search :: "env \<Rightarrow> nat \<Rightarrow> 64 word \<Rightarrow> 64 word option" where
  "sequential_search E 0 c = None"
| "sequential_search E (Suc fuel) c =
     (if accepts E c then Some c else sequential_search E fuel (c + 1))"

definition smallest_solution :: "env \<Rightarrow> 64 word \<Rightarrow> bool" where
  "smallest_solution E c \<longleftrightarrow>
     accepts E c \<and> (\<forall>k \<in> set [0..<unat c]. \<not> accepts E (word_of_nat k))"

subsection \<open>A concrete environment\<close>

text \<open>
  A digest function small enough to evaluate: twenty equal bytes, zero exactly when the
  hashed string has at least four characters and its third one is the digit 3. With
  block data \<open>x\<close> and a mask that is not all ones, the first nonce accepted is 130.
\<close>

definition toy_sha1sum :: "string \<Rightarrow> 8 word list" where
  "toy_sha1sum s = replicate 20 (if 4 \<le> length s \<and> s ! 2 = CHR ''3'' then 0 else 255)"

definition toy_uninit :: "nat \<Rightarrow> char" where
  "toy_uninit k = CHR ''?''"

definition toy_env :: "int \<Rightarrow> env" where
  "toy_env d =
     \<lparr>sha1sum = toy_sha1sum, uninit = toy_uninit,
      bitcoin_block_data = ''x'' @ [NUL] @ ''rest of memory'',
      difficulty_mask = get_difficulty d\<rparr>"

text \<open>
  An environment in which no candidate passes: a digest of twenty bytes 255 and the mask of
  difficulty 32.
\<close>

definition never_env :: env where
  "never_env =
     \<lparr>sha1sum = (\<lambda>s. replicate 20 255), uninit = toy_uninit,
      bitcoin_block_data = ''x'' @ [NUL], difficulty_mask = get_difficulty 32\<rparr>"

definition toy_schedule :: "event list" where
  "toy_schedule =
     [Main, Main, Worker 0, Main, Main, Worker 0, Worker 0, Worker 0, Main, Main]"

definition flagged_state :: state where
  "flagged_state = run (toy_env 0) [Main, Main, Worker 0, Main, Main, Worker 0] (init 2)"

subsection \<open>Measures used in the proofs\<close>

text \<open>
  The candidates that have been generated and not discarded: those counted in a record,
  and the tasks held by a worker, by \<^verbatim>\<open>task_pointer\<close>, or by \<^verbatim>\<open>main\<close> in front of
  the lock.
\<close>

definition weight :: "thread \<Rightarrow> nat" where
  "weight th = unat (num_inversions (info th))
     + (case pc th of T_mine task \<Rightarrow> NONCES_PER_TASK | _ \<Rightarrow> 0)"

definition in_flight :: "state \<Rightarrow> nat" where
  "in_flight s = sum_list (map weight (threads s))
     + (case task_pointer s of Some task \<Rightarrow> NONCES_PER_TASK | None \<Rightarrow> 0)
     + (case main_at s of M_publish task \<Rightarrow> NONCES_PER_TASK | _ \<Rightarrow> 0)"

subsection \<open>Invariants used in the proofs\<close>

text \<open>
  What a record that carries a solution says, in any run: its worker has returned, the flag
  is set, and the record holds an accepted nonce with the text of its digest.
\<close>

definition record_ok :: "env \<Rightarrow> state \<Rightarrow> thread \<Rightarrow> bool" where
  "record_ok E s th \<longleftrightarrow>
     (has_solution (info th) \<longrightarrow>
        pc th = T_exit \<and> solution_found s \<and> accepts E (nonce (info th))
        \<and> solution_hash (info th) = sha1tostring (nonce_digest E (nonce (info th))))"

text \<open>\<open>below E a\<close>: no candidate smaller than \<open>a\<close> passes the test.\<close>

definition below :: "env \<Rightarrow> 64 word \<Rightarrow> bool" where
  "below E a \<longleftrightarrow> (\<forall>x. x < a \<longrightarrow> \<not> accepts E x)"

text \<open>
  With one worker the tasks in flight are consecutive. Reading from the worker back to
  \<^verbatim>\<open>main\<close>: the task being mined starts at \<open>a\<close>, the task in \<^verbatim>\<open>task_pointer\<close> follows it,
  then the task \<^verbatim>\<open>main\<close> holds in front of the lock, and \<^verbatim>\<open>current_nonce\<close> is where the
  last of them ends.
\<close>

definition gen_at :: "state \<Rightarrow> 64 word \<Rightarrow> bool" where
  "gen_at s a \<longleftrightarrow>
     (case main_at s of
        M_fill \<Rightarrow> current_nonce s = a
      | M_publish task \<Rightarrow> task = task_at a \<and> current_nonce s = a + 120
      | M_exit \<Rightarrow> True)"

definition slot_at :: "state \<Rightarrow> 64 word \<Rightarrow> bool" where
  "slot_at s a \<longleftrightarrow>
     (case task_pointer s of
        Some task \<Rightarrow> task = task_at a \<and> gen_at s (a + 120)
      | None \<Rightarrow> gen_at s a)"

definition worker_at :: "state \<Rightarrow> mine_pc \<Rightarrow> 64 word \<Rightarrow> bool" where
  "worker_at s p a \<longleftrightarrow>
     (case p of
        T_claim \<Rightarrow> slot_at s a
      | T_mine task \<Rightarrow> task = task_at a \<and> slot_at s (a + 120)
      | T_exit \<Rightarrow> True)"

definition single_inv :: "env \<Rightarrow> state \<Rightarrow> bool" where
  "single_inv E s \<longleftrightarrow>
     (\<exists>th. threads s = [th]
        \<and> (has_solution (info th) \<longrightarrow>
              pc th = T_exit \<and> smallest_solution E (nonce (info th))
              \<and> solution_hash (info th) = sha1tostring (nonce_digest E (nonce (info th))))
        \<and> (\<exists>a. below E a \<and> worker_at s (pc th) a))"

subsection \<open>Schedules\<close>

text \<open>
  Two workers, each holding a task, both find a solution: the schedule up to the moment
  before worker 1 runs its loop.
\<close>

definition race_schedule :: "event list" where
  "race_schedule = [Main, Main, Worker 0, Main, Main, Worker 1, Worker 0]"

text \<open>
  One worker, served in turn: \<^verbatim>\<open>main\<close> fills and publishes a task, the worker claims
  and mines it. \<open>idle_state k\<close> is the state after \<open>k\<close> such rounds without a solution,
  \<open>found_state E k c\<close> the state after the round that finds \<open>c\<close> and the two steps in
  which \<^verbatim>\<open>main\<close> sees the flag.
\<close>

definition idle_state :: "nat \<Rightarrow> state" where
  "idle_state k =
     \<lparr>current_nonce = word_of_nat (120 * k), task_pointer = None, solution_found = False,
      main_at = M_fill,
      threads = [\<lparr>pc = T_claim,
                  info = \<lparr>thread_id = 0, num_inversions = word_of_nat (120 * k), nonce = 0,
                          solution_hash = []\<rparr>\<rparr>]\<rparr>"

fun rounds :: "nat \<Rightarrow> event list" where
  "rounds 0 = []"
| "rounds (Suc k) = [Main, Main, Worker 0, Worker 0] @ rounds k"

definition single_schedule :: "nat \<Rightarrow> event list" where
  "single_schedule k = rounds k @ [Main, Main, Worker 0, Worker 0, Main, Main]"

definition found_state :: "env \<Rightarrow> nat \<Rightarrow> 64 word \<Rightarrow> state" where
  "found_state E k c =
     \<lparr>current_nonce = word_of_nat (120 * k) + 240, task_pointer = None, solution_found = True,
      main_at = M_exit,
      threads = [\<lparr>pc = T_exit,
                  info = \<lparr>thread_id = 0, num_inversions = word_of_nat (120 * k), nonce = c,
                          solution_hash = sha1tostring (nonce_digest E c)\<rparr>\<rparr>]\<rparr>"

section \<open>Properties\<close>

subsection \<open>The difficulty mask\<close>

lemma get_difficulty_loop_mask:
  "0 \<le> i \<Longrightarrow> i \<le> 32 - diff \<Longrightarrow>
   get_difficulty_loop diff i (mask (nat i)) = mask (nat (32 - diff))"
proof (induction diff i "mask (nat i) :: 32 word" rule: get_difficulty_loop.induct)
  case (1 diff i)
  show ?case
  proof (cases "i < 32 - diff")
    case True
    have m: "(mask (nat i) :: 32 word) OR push_bit (nat i) 1 = mask (nat (i + 1))"
      using 1(2) by (simp add: nat_add_distrib mask_Suc_exp or.commute)
    have "get_difficulty_loop diff (i + 1) (mask (nat (i + 1))) = mask (nat (32 - diff))"
      using 1(1)[OF True m] 1(2) True by simp
    then show ?thesis
      using True m by (subst get_difficulty_loop.simps) simp
  next
    case False
    with 1(3) have "i = 32 - diff" by simp
    then show ?thesis by (subst get_difficulty_loop.simps) simp
  qed
qed

lemma get_difficulty_eq_mask:
  "0 \<le> d \<Longrightarrow> d \<le> 32 \<Longrightarrow> get_difficulty d = mask (nat (32 - d))"
  using get_difficulty_loop_mask[of 0 d] by (simp add: get_difficulty_def)

lemma unat_mask_32: "n \<le> 32 \<Longrightarrow> unat (mask n :: 32 word) = 2 ^ n - 1"
proof -
  assume n: "n \<le> 32"
  have "uint (mask n :: 32 word) = mask n"
    using n by (simp add: uint_mask_eq min_def)
  then have "unat (mask n :: 32 word) = nat (mask n)"
    by (simp only: unat_eq_nat_uint)
  also have "\<dots> = 2 ^ n - 1"
    by (simp add: mask_eq_exp_minus_1 nat_diff_distrib nat_power_eq)
  finally show ?thesis .
qed

text \<open>
  C2. For every difficulty \<open>d\<close> from 0 to 32, \<open>get_difficulty d\<close> is the 32-bit unsigned
  value \<open>2 ^ (32 - d) - 1\<close>: its low \<open>32 - d\<close> bits are 1 and its high \<open>d\<close> bits are 0.
\<close>

theorem get_difficulty_mask:
  assumes "0 \<le> d" and "d \<le> 32"
  shows "unat (get_difficulty d) = 2 ^ nat (32 - d) - 1
       \<and> (\<forall>n < 32. bit (get_difficulty d) n \<longleftrightarrow> n < nat (32 - d))"
proof -
  have le: "nat (32 - d) \<le> 32" using assms by simp
  have eq: "get_difficulty d = mask (nat (32 - d))"
    using assms by (rule get_difficulty_eq_mask)
  have "unat (get_difficulty d) = 2 ^ nat (32 - d) - 1"
    unfolding eq using le by (rule unat_mask_32)
  moreover have "\<forall>n < 32. bit (get_difficulty d) n \<longleftrightarrow> n < nat (32 - d)"
    unfolding eq by (simp add: bit_mask_iff)
  ultimately show ?thesis by simp
qed

theorem get_difficulty_mask_witness:
  "(0::int) \<le> 24 \<and> (24::int) \<le> 32 \<and> unat (get_difficulty 24) = 255
   \<and> bit (get_difficulty 24) 7 \<and> \<not> bit (get_difficulty 24) 8"
proof -
  have "unat (get_difficulty 24) = 255
      \<and> (\<forall>n < 32. bit (get_difficulty 24) n \<longleftrightarrow> n < 8)"
    using get_difficulty_mask[of 24] by simp
  then show ?thesis by simp
qed

text \<open>
  C10. For every difficulty \<open>d \<ge> 32\<close>, also above the documented range, the loop of
  \<open>get_difficulty\<close> is not entered: the mask is 0, the same as for difficulty 32, and
  nothing fails.
\<close>

theorem get_difficulty_high:
  assumes "32 \<le> d"
  shows "get_difficulty d = 0 \<and> get_difficulty d = get_difficulty 32"
  using assms by (simp add: get_difficulty_def get_difficulty_loop.simps)

theorem get_difficulty_high_witness:
  "(32::int) \<le> 2147483647 \<and> get_difficulty 2147483647 = 0
   \<and> get_difficulty 2147483647 = get_difficulty 32"
proof -
  have h: "(32::int) \<le> 2147483647" by simp
  from h get_difficulty_high[OF h] show ?thesis by blast
qed

subsection \<open>The bytes that are hashed\<close>

lemma digit_cases:
  "d < 10 \<Longrightarrow>
   d = 0 \<or> d = 1 \<or> d = 2 \<or> d = 3 \<or> d = 4 \<or> d = 5 \<or> d = 6 \<or> d = 7 \<or> d = 8 \<or> d = (9::nat)"
  by arith

lemma digit_char_props:
  assumes "d < 10"
  shows "digit_char d \<noteq> NUL" and "digit_char d \<in> set ''0123456789''"
    and "digit_val (digit_char d) = d" and "digit_char d = CHR ''0'' \<longleftrightarrow> d = 0"
  using digit_cases[OF assms] by (auto simp add: digit_char_def digit_val_def)

lemma utoa_nonempty: "utoa n \<noteq> []"
  by (subst utoa.simps) simp

lemma utoa_chars: "c \<in> set (utoa n) \<Longrightarrow> c \<in> set ''0123456789'' \<and> c \<noteq> NUL"
proof (induction n rule: utoa.induct)
  case (1 n)
  show ?case
  proof (cases "n < 10")
    case True
    with 1(2) have "c = digit_char n" by (subst (asm) utoa.simps) simp
    then show ?thesis
      by (simp only: digit_char_props(1,2)[OF True] simp_thms)
  next
    case False
    with 1(2) have "c \<in> set (utoa (n div 10)) \<or> c = digit_char (n mod 10)"
      by (subst (asm) utoa.simps) auto
    then show ?thesis
    proof
      assume "c \<in> set (utoa (n div 10))"
      with 1(1)[OF False] show ?thesis .
    next
      assume "c = digit_char (n mod 10)"
      with digit_char_props(1,2)[of "n mod 10"] show ?thesis by simp
    qed
  qed
qed

lemma utoa_no_NUL: "NUL \<notin> set (utoa n)"
  using utoa_chars by blast

lemma decimal_value_snoc: "decimal_value (s @ [c]) = 10 * decimal_value s + digit_val c"
  by (simp add: decimal_value_def)

lemma decimal_value_utoa: "decimal_value (utoa n) = n"
proof (induction n rule: utoa.induct)
  case (1 n)
  show ?case
  proof (cases "n < 10")
    case True
    then show ?thesis
      by (subst utoa.simps) (simp add: decimal_value_def digit_char_props(3))
  next
    case False
    have "decimal_value (utoa n)
        = 10 * decimal_value (utoa (n div 10)) + digit_val (digit_char (n mod 10))"
      using False by (subst utoa.simps) (simp add: decimal_value_snoc)
    also have "\<dots> = 10 * (n div 10) + n mod 10"
      using 1[OF False] by (simp add: digit_char_props(3))
    finally show ?thesis by simp
  qed
qed

lemma utoa_leading_zero: "hd (utoa n) = CHR ''0'' \<Longrightarrow> utoa n = ''0''"
proof (induction n rule: utoa.induct)
  case (1 n)
  show ?case
  proof (cases "n < 10")
    case True
    with 1(2) have "digit_char n = CHR ''0''" by (subst (asm) utoa.simps) simp
    with True have "n = 0" by (simp add: digit_char_props(4))
    then show ?thesis by (subst utoa.simps) (simp add: digit_char_def)
  next
    case False
    with 1(2) have "hd (utoa (n div 10)) = CHR ''0''"
      by (subst (asm) utoa.simps) (simp add: utoa_nonempty)
    with 1(1)[OF False] have "utoa (n div 10) = ''0''" .
    then have "decimal_value (utoa (n div 10)) = decimal_value ''0''" by (simp only:)
    then have "n div 10 = decimal_value ''0''" by (simp only: decimal_value_utoa)
    then have "n div 10 = 0" by (simp add: decimal_value_def digit_val_def)
    with False show ?thesis by simp
  qed
qed

lemma utoa_canonical: "canonical_decimal (utoa n) n"
  unfolding canonical_decimal_def
  using utoa_nonempty utoa_chars utoa_leading_zero decimal_value_utoa by blast

lemma utoa_length: "0 < k \<Longrightarrow> n < 10 ^ k \<Longrightarrow> length (utoa n) \<le> k"
proof (induction n arbitrary: k rule: utoa.induct)
  case (1 n)
  show ?case
  proof (cases "n < 10")
    case True
    then show ?thesis using 1(2) by (subst utoa.simps) simp
  next
    case False
    with 1(3) have "1 < k" by (cases "k = 1") (use 1(2) in auto)
    then obtain j where k: "k = Suc j" and j: "0 < j" by (cases k) auto
    from 1(3) k have "n div 10 < 10 ^ j"
      by (simp add: less_mult_imp_div_less mult.commute)
    with 1(1)[OF False j] have "length (utoa (n div 10)) \<le> j" .
    then show ?thesis using False k by (subst utoa.simps) simp
  qed
qed

lemma utoa_length_u64: "length (utoa (unat (n :: 64 word))) \<le> 20"
proof -
  have "unat n < 2 ^ 64" using unsigned_less[of n, where 'a=nat] by simp
  also have "(2::nat) ^ 64 < 10 ^ 20" by simp
  finally show ?thesis by (intro utoa_length) simp_all
qed

lemma takeWhile_NUL: "NUL \<notin> set s \<Longrightarrow> takeWhile (\<lambda>c. c \<noteq> NUL) (s @ NUL # r) = s"
  by (induction s) auto

lemma c_str_terminated: "NUL \<notin> set s \<Longrightarrow> c_str (s @ NUL # r) = s"
  by (simp add: c_str_def takeWhile_NUL)

lemma strlen_c_str: "strlen mem = length (c_str mem)"
  by (simp add: strlen_def c_str_def)

lemma c_str_no_NUL: "NUL \<notin> set (c_str mem)"
  unfolding c_str_def by (metis (mono_tags, lifting) set_takeWhileD)

lemma c_str_split:
  "NUL \<in> set mem \<Longrightarrow> mem = c_str mem @ NUL # drop (strlen mem + 1) mem"
  by (induction mem) (auto simp add: c_str_def strlen_def)

lemma length_uninit_block: "length (uninit_block u n) = n"
  by (simp add: uninit_block_def)

lemma sprintf_llu_shape:
  "sprintf_llu buf n = utoa (unat n) @ NUL # drop (length (utoa (unat n)) + 1) buf"
  by (simp add: sprintf_llu_def Let_def)

lemma sprintf_llu_fits: "length (sprintf_llu (uninit_block u 21) n) = 21"
  using utoa_length_u64[of n] by (simp add: sprintf_llu_def Let_def length_uninit_block)

lemma mine_input_shape:
  assumes "NUL \<in> set bd"
  shows "mine_input u bd n = c_str bd @ utoa (unat n) @ [NUL]"
proof -
  let ?ds = "utoa (unat n)"
  let ?buf = "sprintf_llu (uninit_block u 21) n"
  let ?size = "strlen ?buf + strlen bd"
  let ?tmp0 = "uninit_block u (?size + 1)"
  have buf: "?buf = ?ds @ NUL # drop (length ?ds + 1) (uninit_block u 21)"
    by (rule sprintf_llu_shape)
  have len_buf: "strlen ?buf = length ?ds"
    by (subst buf) (simp add: strlen_def takeWhile_NUL utoa_no_NUL)
  have take_buf: "take (strlen ?buf + 1) ?buf = ?ds @ [NUL]"
    unfolding len_buf by (subst buf) simp
  have len_bd: "strlen bd = length (c_str bd)" by (rule strlen_c_str)
  have take_bd: "take (strlen bd + 1) bd = c_str bd @ [NUL]"
    by (subst c_str_split[OF assms]) (simp add: len_bd)
  define tmp1 where "tmp1 = strcpy ?tmp0 bd"
  have tmp1: "tmp1 = c_str bd @ NUL # drop (length (c_str bd) + 1) ?tmp0"
    unfolding tmp1_def strcpy_def take_bd by (simp add: len_bd)
  have len1: "length tmp1 = length ?ds + length (c_str bd) + 1"
    by (subst tmp1) (simp add: length_uninit_block len_buf len_bd)
  have slen1: "strlen tmp1 = length (c_str bd)"
    by (subst tmp1) (simp add: strlen_def takeWhile_NUL c_str_no_NUL)
  have take1: "take (strlen tmp1) tmp1 = c_str bd"
    unfolding slen1 by (subst tmp1) simp
  have "strcat_c tmp1 ?buf = c_str bd @ ?ds @ [NUL]"
    unfolding strcat_c_def take1 take_buf by (simp add: slen1 len_buf len1)
  then show ?thesis
    by (simp add: mine_input_def Let_def tmp1_def)
qed

lemma mine_input_fits:
  assumes "NUL \<in> set bd"
  shows "length (mine_input u bd n)
       = strlen (sprintf_llu (uninit_block u 21) n) + strlen bd + 1"
proof -
  have "strlen (sprintf_llu (uninit_block u 21) n) = length (utoa (unat n))"
    by (subst sprintf_llu_shape) (simp add: strlen_def takeWhile_NUL utoa_no_NUL)
  then show ?thesis
    by (simp add: mine_input_shape[OF assms] strlen_c_str)
qed

text \<open>
  C3. For every candidate \<open>n\<close>, the string handed to the digest function is the block
  data followed by the canonical base-10 representation of \<open>n\<close>, byte for byte. The block
  data is a C string: its memory holds a terminating byte 0.
\<close>

theorem hashed_bytes:
  assumes "NUL \<in> set (bitcoin_block_data E)"
  shows "c_str (mine_input (uninit E) (bitcoin_block_data E) n)
           = c_str (bitcoin_block_data E) @ utoa (unat n)
       \<and> canonical_decimal (utoa (unat n)) (unat n)
       \<and> nonce_digest E n = sha1sum E (c_str (bitcoin_block_data E) @ utoa (unat n))"
proof -
  let ?bd = "c_str (bitcoin_block_data E)"
  let ?ds = "utoa (unat n)"
  have "NUL \<notin> set (?bd @ ?ds)"
    using c_str_no_NUL utoa_no_NUL by simp
  then have "c_str ((?bd @ ?ds) @ NUL # []) = ?bd @ ?ds"
    by (rule c_str_terminated)
  then have "c_str (mine_input (uninit E) (bitcoin_block_data E) n) = ?bd @ ?ds"
    by (simp add: mine_input_shape[OF assms])
  moreover have "canonical_decimal ?ds (unat n)"
    by (rule utoa_canonical)
  ultimately show ?thesis
    unfolding nonce_digest_def by simp
qed

theorem hashed_bytes_witness:
  "NUL \<in> set (bitcoin_block_data (toy_env 8))
   \<and> c_str (mine_input (uninit (toy_env 8)) (bitcoin_block_data (toy_env 8)) 130) = ''x130''
   \<and> canonical_decimal ''130'' 130
   \<and> nonce_digest (toy_env 8) 130 = toy_sha1sum ''x130''"
proof -
  have h: "NUL \<in> set (bitcoin_block_data (toy_env 8))"
    by (simp add: toy_env_def)
  have bd: "c_str (bitcoin_block_data (toy_env 8)) = ''x''"
    by (simp add: toy_env_def c_str_def)
  have ds: "utoa (unat (130 :: 64 word)) = ''130''"
    by (simp add: utoa.simps digit_char_def)
  have sha: "sha1sum (toy_env 8) = toy_sha1sum"
    by (simp add: toy_env_def)
  from h hashed_bytes[OF h, of 130] show ?thesis
    unfolding bd ds sha by simp
qed

subsection \<open>The difficulty test\<close>

lemma or_bytes_add:
  fixes a b c d :: "8 word"
  shows "(((push_bit 24 (ucast a) OR push_bit 16 (ucast b)) OR push_bit 8 (ucast c))
            OR ucast d :: 32 word)
       = push_bit 24 (ucast a) + push_bit 16 (ucast b) + push_bit 8 (ucast c) + ucast d"
proof -
  have 1: "(push_bit 24 (ucast a) :: 32 word) OR push_bit 16 (ucast b)
         = push_bit 24 (ucast a) + push_bit 16 (ucast b)"
    by (rule disjunctive_add[symmetric]) (auto simp add: bit_simps dest: bit_imp_le_length)
  have 2: "((push_bit 24 (ucast a) OR push_bit 16 (ucast b)) :: 32 word) OR push_bit 8 (ucast c)
         = (push_bit 24 (ucast a) OR push_bit 16 (ucast b)) + push_bit 8 (ucast c)"
    by (rule disjunctive_add[symmetric]) (auto simp add: bit_simps dest: bit_imp_le_length)
  have 3: "(((push_bit 24 (ucast a) OR push_bit 16 (ucast b)) OR push_bit 8 (ucast c))
              :: 32 word) OR ucast d
         = ((push_bit 24 (ucast a) OR push_bit 16 (ucast b)) OR push_bit 8 (ucast c)) + ucast d"
    by (rule disjunctive_add[symmetric]) (auto simp add: bit_simps dest: bit_imp_le_length)
  show ?thesis by (simp only: 3) (simp only: 2, simp only: 1)
qed

lemma hash_front_leadingBits: "hash_front digest = word_of_nat (leadingBits digest)"
  unfolding hash_front_def leadingBits_def
  by (simp only: Let_def or.left_neutral or_bytes_add) (simp add: push_bit_eq_mult)

lemma leadingBits_less: "leadingBits digest < 2 ^ 32"
proof -
  have b: "unat x < 256" for x :: "8 word"
    using unsigned_less[of x, where 'a=nat] by simp
  show ?thesis
    unfolding leadingBits_def
    using b[of "digest ! 0"] b[of "digest ! 1"] b[of "digest ! 2"] b[of "digest ! 3"]
    by simp
qed

lemma unat_hash_front: "unat (hash_front digest) = leadingBits digest"
  using leadingBits_less[of digest]
  by (simp add: hash_front_leadingBits unat_of_nat)

text \<open>
  C4. A candidate passes the test of the worker exactly when
  \<open>leadingBits AND difficulty_mask = leadingBits\<close>, where \<open>leadingBits\<close> is the number
  whose big-endian bytes are the first four bytes of the digest, \<open>digest[0]\<close> the most
  significant; the word \<open>hash_front\<close> built by the shifts of the code has that value.
\<close>

theorem accepts_iff_leading_bits:
  "(accepts E n \<longleftrightarrow>
      (word_of_nat (leadingBits (nonce_digest E n)) AND difficulty_mask E)
        = (word_of_nat (leadingBits (nonce_digest E n)) :: 32 word))
   \<and> unat (hash_front (nonce_digest E n)) = leadingBits (nonce_digest E n)
   \<and> leadingBits (nonce_digest E n)
       = unat (nonce_digest E n ! 0) * 16777216 + unat (nonce_digest E n ! 1) * 65536
         + unat (nonce_digest E n ! 2) * 256 + unat (nonce_digest E n ! 3)"
  by (simp add: accepts_def hash_front_leadingBits[symmetric] unat_hash_front)
     (simp add: leadingBits_def)

subsection \<open>The tasks generated by \<^verbatim>\<open>main\<close>\<close>

lemma map_upt_shift:
  "c # map (\<lambda>j. c + 1 + word_of_nat j) [0..<m] = map (\<lambda>j. c + (word_of_nat j :: 64 word)) [0..<Suc m]"
  by (simp add: map_upt_Suc add.assoc del: upt_Suc)

lemma fill_nonces_inv:
  "i \<le> NONCES_PER_TASK \<Longrightarrow> length nonces = NONCES_PER_TASK \<Longrightarrow>
   fill_nonces i nonces c =
     (take i nonces @ map (\<lambda>j. c + word_of_nat j) [0..<NONCES_PER_TASK - i],
      c + word_of_nat (NONCES_PER_TASK - i))"
proof (induction i nonces c rule: fill_nonces.induct)
  case (1 i nonces c)
  show ?case
  proof (cases "i < NONCES_PER_TASK")
    case True
    then obtain m where m: "NONCES_PER_TASK - i = Suc m" and m': "NONCES_PER_TASK - (i + 1) = m"
      by (cases "NONCES_PER_TASK - i") auto
    have a: "i + 1 \<le> NONCES_PER_TASK" using True by simp
    have b: "length (nonces[i := c]) = NONCES_PER_TASK" using 1(3) by simp
    have ih: "fill_nonces (i + 1) (nonces[i := c]) (c + 1) =
        (take (i + 1) (nonces[i := c]) @ map (\<lambda>j. c + 1 + word_of_nat j) [0..<m],
         c + 1 + word_of_nat m)"
      using 1(1)[OF True a b] by (simp only: m')
    have tk: "take (i + 1) (nonces[i := c]) = take i nonces @ [c]"
      using True 1(3) by (simp add: take_Suc_conv_app_nth)
    have "fill_nonces i nonces c = fill_nonces (i + 1) (nonces[i := c]) (c + 1)"
      using True by (subst fill_nonces.simps) simp
    also have "\<dots> = (take i nonces @ c # map (\<lambda>j. c + 1 + word_of_nat j) [0..<m],
         c + 1 + word_of_nat m)"
      by (simp only: ih tk) simp
    also have "\<dots> = (take i nonces @ map (\<lambda>j. c + word_of_nat j) [0..<Suc m],
         c + word_of_nat (Suc m))"
      by (simp only: map_upt_shift) (simp add: add.assoc)
    finally show ?thesis by (simp only: m)
  next
    case False
    with 1(2) have "i = NONCES_PER_TASK" by simp
    then show ?thesis using 1(3) by (subst fill_nonces.simps) simp
  qed
qed

lemma new_task_eq: "new_task c = (task_at c, c + 120)"
  using fill_nonces_inv[of 0 "replicate NONCES_PER_TASK 0" c]
  by (simp add: new_task_def task_at_def) (simp add: NONCES_PER_TASK_def)

lemma fill_nonces_any_array:
  "length nonces = NONCES_PER_TASK \<Longrightarrow> fill_nonces 0 nonces c = new_task c"
  using fill_nonces_inv[of 0 nonces c] fill_nonces_inv[of 0 "replicate NONCES_PER_TASK 0" c]
  by (simp add: new_task_def)

lemma UINT64_MAX_minus_1: "UINT64_MAX = - 1"
  by (simp add: UINT64_MAX_def)

lemma even_below_max: "even (c :: 64 word) \<Longrightarrow> c < UINT64_MAX"
proof -
  assume e: "even c"
  have "c \<noteq> - 1" using e by auto
  then show ?thesis
    unfolding UINT64_MAX_minus_1 by (simp add: word_order.not_eq_extremum)
qed

lemma length_task_at: "length (task_at c) = NONCES_PER_TASK"
  by (simp add: task_at_def)

lemma nth_task_at: "j < NONCES_PER_TASK \<Longrightarrow> task_at c ! j = c + word_of_nat j"
  by (simp add: task_at_def)

lemma published_even:
  "even c \<Longrightarrow> published k c = map (\<lambda>j. task_at (c + 120 * word_of_nat j)) [0..<k]"
proof (induction k arbitrary: c)
  case 0
  show ?case by simp
next
  case (Suc k)
  have e: "even (c + 120)" using Suc.prems by simp
  have "published (Suc k) c = task_at c # published k (c + 120)"
    using even_below_max[OF Suc.prems] by (simp add: new_task_eq)
  also have "\<dots> = task_at c # map (\<lambda>j. task_at (c + 120 + 120 * word_of_nat j)) [0..<k]"
    by (simp only: Suc.IH[OF e])
  also have "\<dots> = map (\<lambda>j. task_at (c + 120 * word_of_nat j)) [0..<Suc k]"
    by (simp add: map_upt_Suc add.assoc distrib_left del: upt_Suc)
  finally show ?case .
qed

lemma published_0: "published n 0 = map (\<lambda>k. task_at (word_of_nat (120 * k))) [0..<n]"
  using published_even[of 0 n] by simp

lemma unat_task_at:
  assumes "120 * k + 120 \<le> 2 ^ 64"
  shows "map unat (task_at (word_of_nat (120 * k))) = [120 * k..<120 * k + 120]"
proof -
  have "unat (word_of_nat (120 * k) + word_of_nat j :: 64 word) = 120 * k + j" if "j < 120" for j
  proof -
    have "word_of_nat (120 * k) + word_of_nat j = (word_of_nat (120 * k + j) :: 64 word)"
      by simp
    moreover have "120 * k + j < 2 ^ 64" using that assms by simp
    ultimately show ?thesis by (simp only: unat_of_nat) simp
  qed
  then have "map unat (task_at (word_of_nat (120 * k))) = map (\<lambda>j. 120 * k + j) [0..<120]"
    by (simp add: task_at_def NONCES_PER_TASK_def)
  also have "\<dots> = [120 * k..<120 * k + 120]"
    using map_add_upt[of "120 * k" 120] by (simp add: add.commute)
  finally show ?thesis .
qed

lemma concat_published:
  "120 * n \<le> 2 ^ 64 \<Longrightarrow> concat (map (map unat) (published n 0)) = [0..<120 * n]"
proof (induction n)
  case 0
  show ?case by simp
next
  case (Suc n)
  have le: "120 * n \<le> 2 ^ 64" and le': "120 * n + 120 \<le> 2 ^ 64" using Suc.prems by simp_all
  have "published (Suc n) 0 = published n 0 @ [task_at (word_of_nat (120 * n))]"
    by (simp only: published_0) simp
  then have "concat (map (map unat) (published (Suc n) 0))
      = [0..<120 * n] @ [120 * n..<120 * n + 120]"
    using Suc.IH[OF le] unat_task_at[OF le'] by simp
  also have "\<dots> = [0..<120 * Suc n]"
    using upt_add_eq_append[of 0 "120 * n" 120] by (simp add: add.commute)
  finally show ?case .
qed

lemma mine_step_main_unchanged:
  "main_at (mine_step E t s) = main_at s \<and> current_nonce (mine_step E t s) = current_nonce s"
  by (simp add: mine_step_def claim_def Let_def split: mine_pc.split option.split prod.split claim_outcome.split)

lemma publications_prefix:
  assumes "even c"
    and "(main_at s = M_fill \<and> current_nonce s = c)
       \<or> (main_at s = M_publish (task_at c) \<and> current_nonce s = c + 120)
       \<or> main_at s = M_exit"
  shows "\<exists>m. publications E evs s = published m c"
  using assms
proof (induction evs arbitrary: s c)
  case Nil
  have "publications E [] s = published 0 c" by simp
  then show ?case by blast
next
  case (Cons e es)
  show ?case
  proof (cases e)
    case (Worker t)
    have "\<exists>m. publications E es (mine_step E t s) = published m c"
      using Cons.prems by (intro Cons.IH) (simp_all add: mine_step_main_unchanged)
    then show ?thesis using Worker by simp
  next
    case Main
    from Cons.prems(2) consider
        (fill) "main_at s = M_fill" "current_nonce s = c"
      | (pub) "main_at s = M_publish (task_at c)" "current_nonce s = c + 120"
      | (exit) "main_at s = M_exit" by blast
    then show ?thesis
    proof cases
      case fill
      have s': "main_at (main_step s) = M_publish (task_at c) \<and> current_nonce (main_step s) = c + 120"
        using fill even_below_max[OF Cons.prems(1)] by (simp add: main_step_def new_task_eq)
      have "\<exists>m. publications E es (main_step s) = published m c"
        using s' by (intro Cons.IH[OF Cons.prems(1)]) simp
      then show ?thesis using Main fill by simp
    next
      case exit
      have "\<exists>m. publications E es (main_step s) = published m c"
        using exit by (intro Cons.IH[OF Cons.prems(1)]) (simp add: main_step_def)
      then show ?thesis using Main exit by simp
    next
      case pub
      show ?thesis
      proof (cases "fst (publish (task_at c) s) = P_published")
        case True
        then have st: "main_at (main_step s) = M_fill \<and> current_nonce (main_step s) = c + 120"
          using pub by (auto simp add: main_step_def publish_def split: if_splits)
        have e: "even (c + 120)" using Cons.prems(1) by simp
        obtain m where m: "publications E es (main_step s) = published m (c + 120)"
          using Cons.IH[OF e, of "main_step s"] st by auto
        have "publications E (e # es) s = task_at c # published m (c + 120)"
          using Main pub True m by simp
        also have "\<dots> = published (Suc m) c"
          using even_below_max[OF Cons.prems(1)] by (simp add: new_task_eq)
        finally show ?thesis by blast
      next
        case False
        then have st: "(main_at (main_step s) = M_publish (task_at c) \<and> current_nonce (main_step s) = c + 120)
            \<or> main_at (main_step s) = M_exit"
          using pub by (auto simp add: main_step_def publish_def split: if_splits)
        have "\<exists>m. publications E es (main_step s) = published m c"
          using st by (intro Cons.IH[OF Cons.prems(1)]) blast
        then show ?thesis using Main pub False by simp
      qed
    qed
  qed
qed

lemma publications_init: "\<exists>m. publications E evs (init num_threads) = published m 0"
  by (rule publications_prefix) (simp_all add: init_def)

lemma length_published_0: "length (published m 0) = m"
  by (simp add: published_0)

lemma nth_published:
  assumes "k < n" and "j < 120"
  shows "published n 0 ! k ! j = word_of_nat (120 * k + j)"
  using assms by (simp add: published_0 nth_task_at NONCES_PER_TASK_def)

lemma nth_published_task:
  "k < n \<Longrightarrow> published n 0 ! k = task_at (word_of_nat (120 * k))"
  unfolding published_0 by (simp del: of_nat_mult)

lemma publications_le_generated_from:
  "120 * length (publications E evs s)
     \<le> generated E evs s + (case main_at s of M_publish task \<Rightarrow> 120 | _ \<Rightarrow> 0)"
proof (induction evs arbitrary: s)
  case Nil
  show ?case by simp
next
  case (Cons e es)
  show ?case
  proof (cases e)
    case (Worker t)
    have "main_at (mine_step E t s) = main_at s" by (simp add: mine_step_main_unchanged)
    with Cons.IH[of "mine_step E t s"] Worker show ?thesis by simp
  next
    case Main
    show ?thesis
    proof (cases "main_at s")
      case M_exit
      then have "main_step s = s" by (simp add: main_step_def)
      with Cons.IH[of s] Main M_exit show ?thesis by simp
    next
      case M_fill
      show ?thesis
      proof (cases "current_nonce s < UINT64_MAX")
        case True
        then have "main_at (main_step s) = M_publish (task_at (current_nonce s))"
          using M_fill by (simp add: main_step_def new_task_eq)
        with Cons.IH[of "main_step s"] Main M_fill True show ?thesis
          by (simp add: NONCES_PER_TASK_def)
      next
        case False
        then have "main_at (main_step s) = M_exit"
          using M_fill by (simp add: main_step_def)
        with Cons.IH[of "main_step s"] Main M_fill False show ?thesis by simp
      qed
    next
      case (M_publish task)
      show ?thesis
      proof (cases "fst (publish task s) = P_published")
        case True
        then have "main_at (main_step s) = M_fill"
          using M_publish by (auto simp add: main_step_def publish_def split: if_splits)
        with Cons.IH[of "main_step s"] Main M_publish True show ?thesis by simp
      next
        case False
        with Cons.IH[of "main_step s"] Main M_publish show ?thesis
          by (auto simp add: main_step_def publish_def split: if_splits main_pc.splits)
      qed
    qed
  qed
qed

lemma publications_le_generated:
  "120 * length (publications E evs (init num_threads)) \<le> generated E evs (init num_threads)"
  using publications_le_generated_from[of E evs "init num_threads"] by (simp add: init_def)

text \<open>
  C5. The tasks stored into \<^verbatim>\<open>task_pointer\<close> along any schedule are the first tasks of
  the sequence \<open>published\<close>. The candidates are the values of the \<^verbatim>\<open>uint64_t\<close>
  \<^verbatim>\<open>current_nonce\<close>: for a run whose \<open>K\<close> published tasks lie in that candidate space
  (\<open>120 * K \<le> 2 ^ 64\<close>, which holds whenever the run has generated at most \<open>2 ^ 64\<close>
  candidates, lemma \<open>publications_le_generated\<close>), every task has 120 cells, the \<open>k\<close>-th
  holds exactly the candidates \<open>120 * k, \<dots>, 120 * k + 119\<close>, and all of them together,
  in publish order, are \<open>0, 1, \<dots>, 120 * K - 1\<close>: no gap, no duplicate. What happens
  once the candidate space is exhausted is left open by the specification.
\<close>

theorem published_tasks_consecutive:
  assumes "120 * length (publications E evs (init num_threads)) \<le> 2 ^ 64"
  shows "(\<forall>k < length (publications E evs (init num_threads)).
            length (publications E evs (init num_threads) ! k) = 120
          \<and> map unat (publications E evs (init num_threads) ! k) = [120 * k..<120 * k + 120])
       \<and> concat (map (map unat) (publications E evs (init num_threads)))
           = [0..<120 * length (publications E evs (init num_threads))]"
proof -
  obtain m where m: "publications E evs (init num_threads) = published m 0"
    using publications_init by blast
  have le: "120 * m \<le> 2 ^ 64" using assms by (simp add: m length_published_0)
  have "length (published m 0 ! k) = 120
        \<and> map unat (published m 0 ! k) = [120 * k..<120 * k + 120]" if "k < m" for k
  proof -
    have "120 * k + 120 \<le> 2 ^ 64" using that le by simp
    then show ?thesis
      by (simp only: nth_published_task[OF that] unat_task_at length_task_at)
         (simp add: NONCES_PER_TASK_def)
  qed
  then show ?thesis
    using concat_published[OF le] by (simp add: m length_published_0)
qed

theorem published_tasks_consecutive_witness:
  "120 * length (publications (toy_env 8) [Main, Main, Worker 0, Main, Main] (init 1)) \<le> 2 ^ 64
   \<and> length (publications (toy_env 8) [Main, Main, Worker 0, Main, Main] (init 1)) = 2
   \<and> concat (map (map unat) (publications (toy_env 8) [Main, Main, Worker 0, Main, Main] (init 1)))
       = [0..<240]"
proof -
  define P where "P = publications (toy_env 8) [Main, Main, Worker 0, Main, Main] (init 1)"
  have l: "length P = 2"
    unfolding P_def by code_simp
  then have h: "120 * length P \<le> 2 ^ 64"
    by simp
  have "concat (map (map unat) P) = [0..<120 * length P]"
    using published_tasks_consecutive[OF h[unfolded P_def]] unfolding P_def by (rule conjunct2)
  then have "concat (map (map unat) P) = [0..<240]"
    unfolding l by simp
  with h l show ?thesis unfolding P_def by blast
qed

subsection \<open>The termination flag\<close>

lemma main_step_flag: "solution_found (main_step s) = solution_found s"
  by (simp add: main_step_def publish_def split: main_pc.split prod.split)

lemma mine_step_flag: "solution_found s \<Longrightarrow> solution_found (mine_step E t s)"
  by (simp add: mine_step_def claim_def Let_def split: mine_pc.split option.split)

lemma step_flag: "solution_found s \<Longrightarrow> solution_found (step E e s)"
  by (cases e) (simp_all add: main_step_flag mine_step_flag)

lemma run_flag: "solution_found s \<Longrightarrow> solution_found (run E evs s)"
  by (induction evs arbitrary: s) (simp_all add: step_flag)

lemma trace_Cons: "\<exists>ts. trace E evs s = s # ts"
  by (cases evs) simp_all

lemma flag_trace:
  "rises (map solution_found (trace E evs s)) \<le> (if solution_found s then 0 else 1)
   \<and> falls (map solution_found (trace E evs s)) = 0"
proof (induction evs arbitrary: s)
  case Nil
  show ?case by simp
next
  case (Cons e es)
  obtain ts where ts: "trace E es (step E e s) = step E e s # ts"
    using trace_Cons by blast
  from Cons.IH[of "step E e s"] show ?case
    using step_flag[of s E e] by (auto simp add: ts)
qed

text \<open>
  C8. \<^verbatim>\<open>solution_found\<close> starts false and is only ever assigned true: along every
  schedule the flag goes from false to true at most once and never from true to false.
\<close>

theorem termination_flag_once:
  "\<not> solution_found (init num_threads)
   \<and> rises (map solution_found (trace E evs (init num_threads))) \<le> 1
   \<and> falls (map solution_found (trace E evs (init num_threads))) = 0"
  using flag_trace[of E evs "init num_threads"] by (simp add: init_def)

theorem termination_flag_once_witness:
  "\<not> solution_found (init 2)
   \<and> rises (map solution_found
        (trace (toy_env 0) [Main, Main, Worker 0, Main, Main, Worker 1, Worker 0, Worker 1] (init 2))) = 1
   \<and> falls (map solution_found
        (trace (toy_env 0) [Main, Main, Worker 0, Main, Main, Worker 1, Worker 0, Worker 1] (init 2))) = 0"
proof -
  have "map solution_found
        (trace (toy_env 0) [Main, Main, Worker 0, Main, Main, Worker 1, Worker 0, Worker 1] (init 2))
      = [False, False, False, False, False, False, False, True, True]"
    by code_simp
  then have "rises (map solution_found
        (trace (toy_env 0) [Main, Main, Worker 0, Main, Main, Worker 1, Worker 0, Worker 1] (init 2))) = 1"
    by (simp only:) simp
  with termination_flag_once[of 2 "toy_env 0" "[Main, Main, Worker 0, Main, Main, Worker 1, Worker 0, Worker 1]"]
  show ?thesis by blast
qed

lemma publications_flag: "solution_found s \<Longrightarrow> publications E evs s = []"
proof (induction evs arbitrary: s)
  case Nil
  show ?case by simp
next
  case (Cons e es)
  have "publications E es (step E e s) = []"
    using Cons.prems by (intro Cons.IH step_flag)
  then show ?case using Cons.prems
    by (simp add: publish_def split: event.split main_pc.split)
qed

text \<open>
  C7. Once \<^verbatim>\<open>solution_found\<close> is set, the critical section of \<^verbatim>\<open>main\<close> returns
  without storing its task and the critical section of a worker returns the terminated
  outcome without taking a task: the state, \<^verbatim>\<open>task_pointer\<close> included, is unchanged. No
  step of \<^verbatim>\<open>main\<close> or of a worker changes \<^verbatim>\<open>task_pointer\<close> from then on, and no task is
  published along any schedule that starts there. (A critical section is one step, taken
  at the moment it reads the flag: a store of line 128 that follows a read of
  \<open>false\<close> at line 123 belongs to a step taken before the flag was set.)
\<close>

theorem terminated_no_publish_no_claim:
  assumes "solution_found s"
  shows "publish nonces s = (P_terminated, s) \<and> claim s = (C_terminated, s)
       \<and> task_pointer (main_step s) = task_pointer s
       \<and> task_pointer (mine_step E t s) = task_pointer s
       \<and> publications E evs s = []"
proof -
  have "task_pointer (main_step s) = task_pointer s"
    using assms by (simp add: main_step_def publish_def split: main_pc.split prod.split)
  moreover have "task_pointer (mine_step E t s) = task_pointer s"
    using assms by (simp add: mine_step_def claim_def Let_def split: mine_pc.split option.split)
  ultimately show ?thesis
    using assms by (simp add: publish_def claim_def publications_flag)
qed

theorem terminated_no_publish_no_claim_witness:
  "solution_found flagged_state
   \<and> task_pointer flagged_state = Some (task_at 120)
   \<and> publish (task_at 240) flagged_state = (P_terminated, flagged_state)
   \<and> claim flagged_state = (C_terminated, flagged_state)
   \<and> task_pointer (main_step flagged_state) = Some (task_at 120)
   \<and> task_pointer (mine_step (toy_env 0) 1 flagged_state) = Some (task_at 120)
   \<and> publications (toy_env 0) [Main, Worker 1, Main] flagged_state = []"
proof -
  have h: "solution_found flagged_state"
    unfolding flagged_state_def by code_simp
  have tp: "task_pointer flagged_state = Some (task_at 120)"
    unfolding flagged_state_def by code_simp
  from terminated_no_publish_no_claim[OF h, of "task_at 240" "toy_env 0" 1 "[Main, Worker 1, Main]"] h tp
  show ?thesis by simp
qed

subsection \<open>Counting processed candidates\<close>

lemma sum_list_map_update:
  "t < length xs \<Longrightarrow>
   sum_list (map f (xs[t := y])) + f (xs ! t) = sum_list (map f xs) + (f y :: nat)"
proof (induction xs arbitrary: t)
  case Nil
  then show ?case by simp
next
  case (Cons x xs)
  show ?case
  proof (cases t)
    case 0
    then show ?thesis by simp
  next
    case (Suc k)
    with Cons.prems have "k < length xs" by simp
    from Cons.IH[OF this] show ?thesis using Suc by simp
  qed
qed

lemma processed_le_weight: "processed (map info ths) \<le> sum_list (map weight ths)"
  by (induction ths) (simp_all add: weight_def)

lemma unat_total_le_processed: "unat (total_inversions rs) \<le> processed rs"
proof (induction rs)
  case Nil
  show ?case by simp
next
  case (Cons r rs)
  have "unat (num_inversions r + total_inversions rs)
      \<le> unat (num_inversions r) + unat (total_inversions rs)"
    by (simp add: unat_word_ariths)
  with Cons show ?case by simp
qed

lemma mine_loop_None:
  "mine_loop E task i = None \<Longrightarrow> i \<le> j \<Longrightarrow> j < NONCES_PER_TASK \<Longrightarrow> \<not> accepts E (task ! j)"
proof (induction E task i rule: mine_loop.induct)
  case (1 E task i)
  from 1(2) 1(3) 1(4) have lt: "i < NONCES_PER_TASK" by simp
  from 1(2) lt have na: "\<not> accepts E (task ! i)" and rest: "mine_loop E task (i + 1) = None"
    by (subst (asm) mine_loop.simps, simp split: if_splits)+
  show ?case
  proof (cases "j = i")
    case True
    with na show ?thesis by simp
  next
    case False
    with 1(3) have "i + 1 \<le> j" by simp
    from 1(1)[OF lt na rest this 1(4)] show ?thesis .
  qed
qed

lemma mine_loop_None_iff:
  "i \<le> NONCES_PER_TASK \<Longrightarrow>
   mine_loop E task i = None \<longleftrightarrow> (\<forall>j. i \<le> j \<and> j < NONCES_PER_TASK \<longrightarrow> \<not> accepts E (task ! j))"
proof (induction E task i rule: mine_loop.induct)
  case (1 E task i)
  show ?case
  proof (cases "i < NONCES_PER_TASK")
    case False
    then show ?thesis by (subst mine_loop.simps) auto
  next
    case True
    show ?thesis
    proof (cases "accepts E (task ! i)")
      case acc: True
      then have "mine_loop E task i \<noteq> None" using True by (subst mine_loop.simps) simp
      with acc True show ?thesis by auto
    next
      case nacc: False
      have "mine_loop E task i = mine_loop E task (i + 1)"
        using True nacc by (subst mine_loop.simps) simp
      moreover have "(\<forall>j. i \<le> j \<and> j < NONCES_PER_TASK \<longrightarrow> \<not> accepts E (task ! j))
          \<longleftrightarrow> (\<forall>j. i + 1 \<le> j \<and> j < NONCES_PER_TASK \<longrightarrow> \<not> accepts E (task ! j))"
        using nacc by (metis Suc_eq_plus1 Suc_leI le_neq_implies_less Suc_leD)
      ultimately show ?thesis using 1(1)[OF True nacc] True by simp
    qed
  qed
qed

lemma unat_add_120: "unat (x + word_of_nat NONCES_PER_TASK :: 64 word) \<le> unat x + NONCES_PER_TASK"
  by (simp add: unat_word_ariths NONCES_PER_TASK_def)

lemma mine_step_in_flight: "in_flight (mine_step E t s) \<le> in_flight s"
proof (cases "t < length (threads s)")
  case False
  then show ?thesis by (simp add: mine_step_def)
next
  case True
  let ?th = "threads s ! t"
  note upd = sum_list_map_update[OF True, of weight]
  show ?thesis
  proof (cases "pc ?th")
    case T_exit
    then show ?thesis using True by (simp add: mine_step_def Let_def)
  next
    case T_claim
    have w: "weight ?th = unat (num_inversions (info ?th))"
      using T_claim by (simp add: weight_def)
    show ?thesis
    proof (cases "task_pointer s")
      case None
      then show ?thesis
        using True T_claim upd[of "?th\<lparr>pc := T_exit\<rparr>"] w
        by (simp add: mine_step_def Let_def claim_def in_flight_def weight_def)
    next
      case (Some task)
      then show ?thesis
        using True T_claim upd[of "?th\<lparr>pc := T_exit\<rparr>"] upd[of "?th\<lparr>pc := T_mine task\<rparr>"] w
        by (simp add: mine_step_def Let_def claim_def in_flight_def weight_def)
    qed
  next
    case (T_mine task)
    have w: "weight ?th = unat (num_inversions (info ?th)) + NONCES_PER_TASK"
      using T_mine by (simp add: weight_def)
    show ?thesis
    proof (cases "mine_loop E task 0")
      case None
      let ?th' = "?th\<lparr>pc := T_claim, info := (info ?th)\<lparr>num_inversions :=
                        num_inversions (info ?th) + word_of_nat NONCES_PER_TASK\<rparr>\<rparr>"
      have "weight ?th' \<le> weight ?th"
        using unat_add_120[of "num_inversions (info ?th)"] w by (simp add: weight_def)
      then show ?thesis
        using True T_mine None upd[of ?th']
        by (simp add: mine_step_def Let_def in_flight_def)
    next
      case (Some r)
      obtain n d where r: "r = (n, d)" by (cases r)
      let ?th' = "?th\<lparr>pc := T_exit,
                      info := (info ?th)\<lparr>nonce := n, solution_hash := sha1tostring d\<rparr>\<rparr>"
      have "weight ?th' \<le> weight ?th"
        using w by (simp add: weight_def)
      then show ?thesis
        using True T_mine Some r upd[of ?th']
        by (simp add: mine_step_def Let_def in_flight_def)
    qed
  qed
qed

lemma main_step_in_flight:
  "in_flight (main_step s)
     \<le> in_flight s + (if main_at s = M_fill \<and> current_nonce s < UINT64_MAX
                       then NONCES_PER_TASK else 0)"
  by (cases "main_at s")
     (auto simp add: main_step_def publish_def in_flight_def split: prod.split option.split)

lemma run_in_flight: "in_flight (run E evs s) \<le> in_flight s + generated E evs s"
proof (induction evs arbitrary: s)
  case Nil
  show ?case by simp
next
  case (Cons e es)
  show ?case
  proof (cases e)
    case Main
    then show ?thesis
      using Cons.IH[of "main_step s"] main_step_in_flight[of s] by simp
  next
    case (Worker t)
    then show ?thesis
      using Cons.IH[of "mine_step E t s"] mine_step_in_flight[of E t s] by simp
  qed
qed

lemma in_flight_init: "in_flight (init num_threads) = 0"
  by (simp add: in_flight_def init_def weight_def new_thread_def)

lemma processed_le_in_flight: "processed (records s) \<le> in_flight s"
  using processed_le_weight[of "threads s"] by (simp add: records_def in_flight_def)

lemma processed_run:
  "processed (records (run E evs (init num_threads))) \<le> generated E evs (init num_threads)"
  using run_in_flight[of E evs "init num_threads"]
        processed_le_in_flight[of "run E evs (init num_threads)"]
  by (simp add: in_flight_init)


lemma mine_task_None_iff:
  "mine_loop E task 0 = None \<longleftrightarrow> (\<forall>j < NONCES_PER_TASK. \<not> accepts E (task ! j))"
  using mine_loop_None_iff[of 0 E task] by simp

lemma mine_step_other:
  "t \<noteq> u \<Longrightarrow> threads (mine_step E u s) ! t = threads s ! t"
  by (simp add: mine_step_def claim_def Let_def split: mine_pc.split option.split)

lemma main_step_threads: "threads (main_step s) = threads s"
  by (simp add: main_step_def publish_def split: main_pc.split prod.split)

lemma mine_step_num_inversions:
  assumes "t < length (threads s)"
  shows "num_inversions (info (threads (mine_step E t s) ! t)) =
     (if \<exists>task. pc (threads s ! t) = T_mine task \<and> mine_loop E task 0 = None
      then num_inversions (info (threads s ! t)) + 120
      else num_inversions (info (threads s ! t)))"
proof (cases "pc (threads s ! t)")
  case T_claim
  then show ?thesis using assms
    by (simp add: mine_step_def claim_def Let_def split: option.split)
next
  case (T_mine task)
  then show ?thesis using assms
    by (cases "mine_loop E task 0")
       (auto simp add: mine_step_def Let_def NONCES_PER_TASK_def)
next
  case T_exit
  then show ?thesis using assms by (simp add: mine_step_def Let_def)
qed

text \<open>
  C9. A step changes the count of a worker only when that worker ends its loop over a
  task in which no candidate passed, and then by 120; the task in which a worker finds its
  solution is not counted. Hence along every schedule the sum of the counts, and the
  \<^verbatim>\<open>total_inversions\<close> that \<^verbatim>\<open>print_results\<close> adds up in \<^verbatim>\<open>uint64_t\<close>, are at
  most the number of candidates generated.
\<close>

theorem processed_le_generated:
  "processed (records (run E evs (init num_threads))) \<le> generated E evs (init num_threads)
   \<and> unat (total_inversions (records (run E evs (init num_threads))))
       \<le> generated E evs (init num_threads)
   \<and> (\<forall>t < length (threads s).
         num_inversions (info (threads (step E e s) ! t)) =
           (if e = Worker t
               \<and> (\<exists>task. pc (threads s ! t) = T_mine task
                      \<and> (\<forall>j < NONCES_PER_TASK. \<not> accepts E (task ! j)))
            then num_inversions (info (threads s ! t)) + 120
            else num_inversions (info (threads s ! t))))"
proof -
  have "num_inversions (info (threads (step E e s) ! t)) =
           (if e = Worker t
               \<and> (\<exists>task. pc (threads s ! t) = T_mine task
                      \<and> (\<forall>j < NONCES_PER_TASK. \<not> accepts E (task ! j)))
            then num_inversions (info (threads s ! t)) + 120
            else num_inversions (info (threads s ! t)))"
    if t: "t < length (threads s)" for t
  proof (cases e)
    case Main
    then show ?thesis by (simp add: main_step_threads)
  next
    case (Worker u)
    show ?thesis
    proof (cases "u = t")
      case True
      then show ?thesis
        using Worker mine_step_num_inversions[OF t, of E]
        by (simp only: step.simps mine_task_None_iff) simp
    next
      case False
      then show ?thesis using Worker mine_step_other[of t u E s] by auto
    qed
  qed
  moreover have "unat (total_inversions (records (run E evs (init num_threads))))
       \<le> generated E evs (init num_threads)"
    using unat_total_le_processed[of "records (run E evs (init num_threads))"]
          processed_run[of E evs num_threads] by simp
  ultimately show ?thesis
    using processed_run[of E evs num_threads] by blast
qed

lemma toy_run:
  "run (toy_env 8) toy_schedule (init 1) =
     \<lparr>current_nonce = 360, task_pointer = None, solution_found = True, main_at = M_exit,
      threads = [\<lparr>pc = T_exit,
                  info = \<lparr>thread_id = 0, num_inversions = 120, nonce = 130,
                          solution_hash = ''0000000000000000000000000000000000000000''\<rparr>\<rparr>]\<rparr>"
  by code_simp

theorem processed_le_generated_witness:
  "completed (run (toy_env 8) toy_schedule (init 1))
   \<and> processed (records (run (toy_env 8) toy_schedule (init 1))) = 120
   \<and> processed (records (run (toy_env 8) toy_schedule (init 1)))
       \<le> generated (toy_env 8) toy_schedule (init 1)"
proof -
  have "completed (run (toy_env 8) toy_schedule (init 1))"
    unfolding toy_run by (simp add: completed_def)
  moreover have "processed (records (run (toy_env 8) toy_schedule (init 1))) = 120"
    unfolding toy_run by (simp add: records_def)
  ultimately show ?thesis
    using processed_le_generated[of "toy_env 8" toy_schedule 1] by blast
qed

subsection \<open>Recorded solutions\<close>

lemma mine_loop_Some:
  "mine_loop E task i = Some (n, d) \<Longrightarrow>
   \<exists>j. i \<le> j \<and> j < NONCES_PER_TASK \<and> n = task ! j \<and> d = nonce_digest E n \<and> accepts E n
       \<and> (\<forall>l. i \<le> l \<and> l < j \<longrightarrow> \<not> accepts E (task ! l))"
proof (induction E task i rule: mine_loop.induct)
  case (1 E task i)
  have lt: "i < NONCES_PER_TASK"
    using 1(2) by (subst (asm) mine_loop.simps) (simp split: if_splits)
  show ?case
  proof (cases "accepts E (task ! i)")
    case True
    then have "n = task ! i \<and> d = nonce_digest E (task ! i)"
      using 1(2) lt by (subst (asm) mine_loop.simps) auto
    with True lt show ?thesis by auto
  next
    case False
    then have "mine_loop E task (i + 1) = Some (n, d)"
      using 1(2) lt by (subst (asm) mine_loop.simps) simp
    from 1(1)[OF lt False this] obtain j where j: "i + 1 \<le> j" "j < NONCES_PER_TASK"
        "n = task ! j" "d = nonce_digest E n" "accepts E n"
        "\<forall>l. i + 1 \<le> l \<and> l < j \<longrightarrow> \<not> accepts E (task ! l)"
      by blast
    have "\<forall>l. i \<le> l \<and> l < j \<longrightarrow> \<not> accepts E (task ! l)"
    proof (intro allI impI)
      fix l assume l: "i \<le> l \<and> l < j"
      show "\<not> accepts E (task ! l)"
      proof (cases "l = i")
        case True
        with False show ?thesis by simp
      next
        case False
        with l have "i + 1 \<le> l \<and> l < j" by simp
        with j(6) show ?thesis by blast
      qed
    qed
    with j show ?thesis by (intro exI[of _ j]) simp
  qed
qed

lemma record_ok_flag:
  "record_ok E s th \<Longrightarrow> (solution_found s \<Longrightarrow> solution_found s') \<Longrightarrow> record_ok E s' th"
  by (auto simp add: record_ok_def)

lemma mine_step_found:
  assumes "t < length (threads s)" and "pc (threads s ! t) = T_mine task"
    and "mine_loop E task 0 = Some (n, d)"
  shows "mine_step E t s =
     s\<lparr>solution_found := True,
       threads := (threads s)[t := (threads s ! t)\<lparr>pc := T_exit,
          info := (info (threads s ! t))\<lparr>nonce := n, solution_hash := sha1tostring d\<rparr>\<rparr>]\<rparr>"
  using assms by (simp add: mine_step_def Let_def)

lemma mine_step_records:
  assumes "\<forall>th \<in> set (threads s). record_ok E s th"
  shows "\<forall>th \<in> set (threads (mine_step E t s)). record_ok E (mine_step E t s) th"
proof (cases "t < length (threads s)")
  case False
  then show ?thesis using assms by (simp add: mine_step_def)
next
  case True
  let ?th = "threads s ! t"
  have mem: "?th \<in> set (threads s)" using True by simp
  have old: "record_ok E (mine_step E t s) th" if "th \<in> set (threads s)" for th
    using assms that mine_step_flag[of s E t] by (auto intro: record_ok_flag)
  have upd: "\<forall>th \<in> set ((threads s)[t := y]). record_ok E (mine_step E t s) th"
    if "record_ok E (mine_step E t s) y" for y
  proof
    fix th assume "th \<in> set ((threads s)[t := y])"
    then have "th = y \<or> th \<in> set (threads s)"
      using set_update_subset_insert[of "threads s" t y] by auto
    with that old show "record_ok E (mine_step E t s) th" by blast
  qed
  show ?thesis
  proof (cases "pc ?th")
    case T_exit
    then have "mine_step E t s = s" using True by (simp add: mine_step_def Let_def)
    with assms show ?thesis by simp
  next
    case T_claim
    have ns: "\<not> has_solution (info ?th)"
      using assms mem T_claim by (auto simp add: record_ok_def)
    have y: "record_ok E s' (?th\<lparr>pc := p\<rparr>)" for s' p
      using ns by (simp add: record_ok_def)
    show ?thesis
    proof (cases "task_pointer s")
      case None
      show ?thesis
      proof (cases "solution_found s")
        case False
        then have "mine_step E t s = s"
          using True T_claim None by (simp add: mine_step_def Let_def claim_def)
        with assms show ?thesis by simp
      next
        case flag: True
        then have "threads (mine_step E t s) = (threads s)[t := ?th\<lparr>pc := T_exit\<rparr>]"
          using True T_claim None by (simp add: mine_step_def Let_def claim_def)
        then show ?thesis using upd[OF y] by simp
      qed
    next
      case (Some task)
      have "threads (mine_step E t s) = (threads s)[t := ?th\<lparr>pc := T_exit\<rparr>]
          \<or> threads (mine_step E t s) = (threads s)[t := ?th\<lparr>pc := T_mine task\<rparr>]"
        using True T_claim Some by (simp add: mine_step_def Let_def claim_def)
      then show ?thesis using upd[OF y] by auto
    qed
  next
    case (T_mine task)
    have ns: "\<not> has_solution (info ?th)"
      using assms mem T_mine by (auto simp add: record_ok_def)
    show ?thesis
    proof (cases "mine_loop E task 0")
      case None
      let ?y = "?th\<lparr>pc := T_claim, info := (info ?th)\<lparr>num_inversions :=
                        num_inversions (info ?th) + word_of_nat NONCES_PER_TASK\<rparr>\<rparr>"
      have "threads (mine_step E t s) = (threads s)[t := ?y]"
        using True T_mine None by (simp add: mine_step_def Let_def)
      moreover have "record_ok E (mine_step E t s) ?y"
        using ns by (simp add: record_ok_def has_solution_def)
      ultimately show ?thesis using upd by simp
    next
      case (Some r)
      obtain n d where r: "r = (n, d)" by (cases r)
      let ?y = "?th\<lparr>pc := T_exit,
          info := (info ?th)\<lparr>nonce := n, solution_hash := sha1tostring d\<rparr>\<rparr>"
      have st: "mine_step E t s = s\<lparr>solution_found := True, threads := (threads s)[t := ?y]\<rparr>"
        using mine_step_found[OF True T_mine Some[unfolded r]] .
      from mine_loop_Some[OF Some[unfolded r]]
      have "accepts E n" and "d = nonce_digest E n" by auto
      then have "record_ok E (mine_step E t s) ?y"
        by (simp add: record_ok_def st)
      then show ?thesis using upd[of ?y] by (simp add: st)
    qed
  qed
qed

lemma step_records:
  assumes "\<forall>th \<in> set (threads s). record_ok E s th"
  shows "\<forall>th \<in> set (threads (step E e s)). record_ok E (step E e s) th"
proof (cases e)
  case Main
  then show ?thesis
    using assms by (auto simp add: main_step_threads record_ok_def main_step_flag)
next
  case (Worker t)
  then show ?thesis using mine_step_records[OF assms] by simp
qed

lemma run_records:
  "\<forall>th \<in> set (threads s). record_ok E s th \<Longrightarrow>
   \<forall>th \<in> set (threads (run E evs s)). record_ok E (run E evs s) th"
proof (induction evs arbitrary: s)
  case Nil
  then show ?case by simp
next
  case (Cons e es)
  from Cons.IH[OF step_records[OF Cons.prems]] show ?case by simp
qed

lemma init_records: "\<forall>th \<in> set (threads (init num_threads)). record_ok E (init num_threads) th"
  by (auto simp add: init_def record_ok_def new_thread_def has_solution_def)

lemma set_solutions: "set (solutions rs) = {r \<in> set rs. has_solution r}"
  by (induction rs) auto

lemma length_solutions: "length (solutions rs) \<le> length rs"
  by (induction rs) auto

lemma length_threads_step: "length (threads (step E e s)) = length (threads s)"
proof (cases e)
  case Main
  then show ?thesis by (simp add: main_step_threads)
next
  case (Worker t)
  then show ?thesis
    by (simp add: mine_step_def claim_def Let_def split: mine_pc.split option.split)
qed

lemma length_threads_run: "length (threads (run E evs s)) = length (threads s)"
  by (induction evs arbitrary: s) (simp_all add: length_threads_step)

lemma step_other_thread:
  "e \<noteq> Worker t \<Longrightarrow> threads (step E e s) ! t = threads s ! t"
proof (cases e)
  case Main
  then show ?thesis by (simp add: main_step_threads)
next
  case (Worker u)
  assume "e \<noteq> Worker t"
  with Worker have "t \<noteq> u" by auto
  then show ?thesis using Worker by (simp add: mine_step_other)
qed

lemma step_after_exit:
  assumes "pc (threads s ! t) = T_exit"
  shows "threads (step E e s) ! t = threads s ! t"
proof (cases "e = Worker t")
  case False
  then show ?thesis by (rule step_other_thread)
next
  case True
  then show ?thesis using assms by (simp add: mine_step_def Let_def)
qed

text \<open>
  C1, as far as it holds. A worker whose loop finds an accepted nonce sets the flag, writes
  the nonce and the digest into its own record and returns, whatever the flag was before;
  the step changes nothing else: not the record or the place of another worker, nor
  \<^verbatim>\<open>task_pointer\<close>. The record of a worker is changed by the steps of that worker only,
  and no more once the worker has returned. In every run each record that carries a solution
  belongs to a worker that has returned and holds an accepted nonce with the text of its
  digest, and the flag is then set; there are at most as many such records as workers.
\<close>

theorem solutions_written_by_finders:
  "(\<forall>th \<in> set (threads (run E evs (init num_threads))).
       has_solution (info th) \<longrightarrow>
         pc th = T_exit \<and> accepts E (nonce (info th))
         \<and> solution_hash (info th) = sha1tostring (nonce_digest E (nonce (info th)))
         \<and> solution_found (run E evs (init num_threads)))
   \<and> (\<forall>r \<in> set (solutions (records (run E evs (init num_threads)))).
       accepts E (nonce r) \<and> solution_hash r = sha1tostring (nonce_digest E (nonce r))
       \<and> solution_found (run E evs (init num_threads)))
   \<and> length (solutions (records (run E evs (init num_threads)))) \<le> num_threads
   \<and> (t < length (threads s) \<and> pc (threads s ! t) = T_mine task
        \<and> mine_loop E task 0 = Some (n, d) \<longrightarrow>
      mine_step E t s =
        s\<lparr>solution_found := True,
          threads := (threads s)[t := (threads s ! t)\<lparr>pc := T_exit,
            info := (info (threads s ! t))\<lparr>nonce := n, solution_hash := sha1tostring d\<rparr>\<rparr>]\<rparr>
      \<and> solution_found (mine_step E t s)
      \<and> pc (threads (mine_step E t s) ! t) = T_exit
      \<and> info (threads (mine_step E t s) ! t)
          = (info (threads s ! t))\<lparr>nonce := n, solution_hash := sha1tostring d\<rparr>
      \<and> (\<forall>u. u \<noteq> t \<longrightarrow> threads (mine_step E t s) ! u = threads s ! u)
      \<and> length (threads (mine_step E t s)) = length (threads s)
      \<and> task_pointer (mine_step E t s) = task_pointer s)
   \<and> (e \<noteq> Worker t \<longrightarrow> threads (step E e s) ! t = threads s ! t)
   \<and> (pc (threads s ! t) = T_exit \<longrightarrow> threads (step E e s) ! t = threads s ! t)"
proof -
  let ?s = "run E evs (init num_threads)"
  have inv: "\<forall>th \<in> set (threads ?s). record_ok E ?s th"
    by (rule run_records[OF init_records])
  have 1: "\<forall>th \<in> set (threads ?s).
       has_solution (info th) \<longrightarrow>
         pc th = T_exit \<and> accepts E (nonce (info th))
         \<and> solution_hash (info th) = sha1tostring (nonce_digest E (nonce (info th)))
         \<and> solution_found ?s"
    using inv by (simp add: record_ok_def)
  have 2: "\<forall>r \<in> set (solutions (records ?s)).
       accepts E (nonce r) \<and> solution_hash r = sha1tostring (nonce_digest E (nonce r))
       \<and> solution_found ?s"
    using inv by (auto simp add: set_solutions records_def record_ok_def)
  have 3: "length (solutions (records ?s)) \<le> num_threads"
    using length_solutions[of "records ?s"] length_threads_run[of E evs "init num_threads"]
    by (simp add: records_def init_def)
  have 4: "mine_step E t s =
        s\<lparr>solution_found := True,
          threads := (threads s)[t := (threads s ! t)\<lparr>pc := T_exit,
            info := (info (threads s ! t))\<lparr>nonce := n, solution_hash := sha1tostring d\<rparr>\<rparr>]\<rparr>
      \<and> solution_found (mine_step E t s)
      \<and> pc (threads (mine_step E t s) ! t) = T_exit
      \<and> info (threads (mine_step E t s) ! t)
          = (info (threads s ! t))\<lparr>nonce := n, solution_hash := sha1tostring d\<rparr>
      \<and> (\<forall>u. u \<noteq> t \<longrightarrow> threads (mine_step E t s) ! u = threads s ! u)
      \<and> length (threads (mine_step E t s)) = length (threads s)
      \<and> task_pointer (mine_step E t s) = task_pointer s"
    if h: "t < length (threads s)" "pc (threads s ! t) = T_mine task"
       "mine_loop E task 0 = Some (n, d)"
    using h(1) by (simp add: mine_step_found[OF h])
  have 5: "e \<noteq> Worker t \<longrightarrow> threads (step E e s) ! t = threads s ! t"
    using step_other_thread by blast
  have 6: "pc (threads s ! t) = T_exit \<longrightarrow> threads (step E e s) ! t = threads s ! t"
    using step_after_exit by blast
  from 1 2 3 4 5 6 show ?thesis by blast
qed

text \<open>
  C1 does not hold as stated. With difficulty 0 and two workers, worker 0 claims the first
  task and worker 1 the second; worker 0 finds a solution and sets the flag. Worker 1 then
  runs its loop with the flag already set, and records a solution of its own: two records
  carry a solution.
\<close>

theorem two_solutions_counterexample:
  "solution_found (run (toy_env 0) race_schedule (init 2))
   \<and> \<not> has_solution (records (run (toy_env 0) race_schedule (init 2)) ! 1)
   \<and> has_solution (records (step (toy_env 0) (Worker 1) (run (toy_env 0) race_schedule (init 2))) ! 1)
   \<and> length (solutions (records (step (toy_env 0) (Worker 1) (run (toy_env 0) race_schedule (init 2))))) = 2"
  unfolding race_schedule_def by code_simp

theorem solutions_written_by_finders_witness:
  "solutions (records (run (toy_env 8) toy_schedule (init 1)))
     = [\<lparr>thread_id = 0, num_inversions = 120, nonce = 130,
         solution_hash = ''0000000000000000000000000000000000000000''\<rparr>]
   \<and> accepts (toy_env 8) 130
   \<and> solution_found (run (toy_env 8) toy_schedule (init 1))"
proof -
  let ?r = "\<lparr>thread_id = 0, num_inversions = 120, nonce = 130,
         solution_hash = ''0000000000000000000000000000000000000000''\<rparr>"
  have s: "solutions (records (run (toy_env 8) toy_schedule (init 1))) = [?r]"
    unfolding toy_run by (simp add: records_def has_solution_def)
  then have "?r \<in> set (solutions (records (run (toy_env 8) toy_schedule (init 1))))"
    by simp
  with solutions_written_by_finders[of "toy_env 8" toy_schedule 1]
  have "accepts (toy_env 8) (nonce ?r) \<and> solution_found (run (toy_env 8) toy_schedule (init 1))"
    by blast
  with s show ?thesis by simp
qed

subsection \<open>The search with a single worker\<close>

lemma unat_of_nat_64: "k < 2 ^ 64 \<Longrightarrow> unat (word_of_nat k :: 64 word) = k"
  by (simp add: unat_of_nat)

lemma smallest_solution_alt:
  "smallest_solution E c \<longleftrightarrow> accepts E c \<and> below E c"
proof -
  have "(\<forall>k \<in> set [0..<unat c]. \<not> accepts E (word_of_nat k)) \<longleftrightarrow> below E c"
  proof
    assume a: "\<forall>k \<in> set [0..<unat c]. \<not> accepts E (word_of_nat k)"
    show "below E c"
      unfolding below_def
    proof (intro allI impI)
      fix x :: "64 word" assume "x < c"
      then have "unat x \<in> set [0..<unat c]" by (simp add: word_less_nat_alt)
      with a have "\<not> accepts E (word_of_nat (unat x))" by blast
      then show "\<not> accepts E x" by simp
    qed
  next
    assume b: "below E c"
    show "\<forall>k \<in> set [0..<unat c]. \<not> accepts E (word_of_nat k)"
    proof
      fix k assume "k \<in> set [0..<unat c]"
      then have k: "k < unat c" by simp
      have "unat c < 2 ^ 64" using unsigned_less[of c, where 'a=nat] by simp
      with k have "unat (word_of_nat k :: 64 word) = k" by (intro unat_of_nat_64) simp
      with k have "(word_of_nat k :: 64 word) < c" by (simp add: word_less_nat_alt)
      with b show "\<not> accepts E (word_of_nat k)" by (simp add: below_def)
    qed
  qed
  then show ?thesis by (simp add: smallest_solution_def)
qed

lemma smallest_solution_unique:
  "smallest_solution E c \<Longrightarrow> smallest_solution E c' \<Longrightarrow> c = c'"
  unfolding smallest_solution_alt below_def
  by (meson linorder_neqE)

lemma below_0: "below E 0"
  by (simp add: below_def)

lemma word_split_offset:
  fixes a x :: "64 word"
  assumes "a \<le> x"
  shows "x = a + word_of_nat (unat x - unat a)"
proof -
  have "unat a \<le> unat x" using assms by (simp add: word_le_nat_alt)
  then have "word_of_nat (unat x - unat a) = (word_of_nat (unat x) :: 64 word) - word_of_nat (unat a)"
    by (simp add: of_nat_diff)
  then show ?thesis by simp
qed

lemma below_step:
  assumes "below E a" and "\<forall>j < NONCES_PER_TASK. \<not> accepts E (a + word_of_nat j)"
  shows "below E (a + 120)"
  unfolding below_def
proof (intro allI impI)
  fix x :: "64 word" assume x: "x < a + 120"
  show "\<not> accepts E x"
  proof (cases "x < a")
    case True
    with assms(1) show ?thesis by (simp add: below_def)
  next
    case False
    then have ax: "a \<le> x" by simp
    then have le: "unat a \<le> unat x" by (simp add: word_le_nat_alt)
    have "unat x < unat (a + 120)" using x by (simp add: word_less_nat_alt)
    also have "\<dots> \<le> unat a + 120"
      by (simp add: unat_word_ariths)
    finally have "unat x - unat a < NONCES_PER_TASK"
      using le by (simp add: NONCES_PER_TASK_def)
    with assms(2) have "\<not> accepts E (a + word_of_nat (unat x - unat a))" by blast
    then show ?thesis using word_split_offset[OF ax] by simp
  qed
qed

lemma smallest_from_task:
  assumes "below E a" and "j < NONCES_PER_TASK" and "accepts E (a + word_of_nat j)"
    and "\<forall>l < j. \<not> accepts E (a + word_of_nat l)"
  shows "smallest_solution E (a + word_of_nat j)"
  unfolding smallest_solution_alt
proof
  show "accepts E (a + word_of_nat j)" by fact
  show "below E (a + word_of_nat j)"
    unfolding below_def
  proof (intro allI impI)
    fix x :: "64 word" assume x: "x < a + word_of_nat j"
    show "\<not> accepts E x"
    proof (cases "x < a")
      case True
      with assms(1) show ?thesis by (simp add: below_def)
    next
      case False
      then have ax: "a \<le> x" by simp
      then have le: "unat a \<le> unat x" by (simp add: word_le_nat_alt)
      have "unat x < unat (a + word_of_nat j)" using x by (simp add: word_less_nat_alt)
      also have "\<dots> \<le> unat a + unat (word_of_nat j :: 64 word)"
        by (simp add: unat_word_ariths)
      also have "\<dots> \<le> unat a + j"
        by (simp add: unat_of_nat)
      finally have "unat x - unat a < j" using le by simp
      with assms(4) have "\<not> accepts E (a + word_of_nat (unat x - unat a))" by blast
      then show ?thesis using word_split_offset[OF ax] by simp
    qed
  qed
qed

lemma sequential_search_from:
  assumes "smallest_solution E c"
  shows "a \<le> unat c \<Longrightarrow> unat c - a < fuel \<Longrightarrow> sequential_search E fuel (word_of_nat a) = Some c"
proof (induction fuel arbitrary: a)
  case 0
  then show ?case by simp
next
  case (Suc fuel)
  show ?case
  proof (cases "a = unat c")
    case True
    then have "word_of_nat a = c" by simp
    moreover have "accepts E c" using assms by (simp add: smallest_solution_def)
    ultimately show ?thesis by simp
  next
    case False
    with Suc.prems have lt: "a < unat c" by simp
    then have "\<not> accepts E (word_of_nat a)"
      using assms by (simp add: smallest_solution_def)
    moreover have "sequential_search E fuel (word_of_nat (Suc a)) = Some c"
      using lt Suc.prems by (intro Suc.IH) simp_all
    ultimately show ?thesis by (simp add: add.commute)
  qed
qed

lemma sequential_search_finds:
  "smallest_solution E c \<Longrightarrow> unat c < fuel \<Longrightarrow> sequential_search E fuel 0 = Some c"
  using sequential_search_from[of E c 0 fuel] by simp

lemma main_step_slot_at: "slot_at s a \<Longrightarrow> slot_at (main_step s) a"
  by (cases "main_at s"; cases "task_pointer s")
     (auto simp add: slot_at_def gen_at_def main_step_def publish_def new_task_eq add.assoc)

lemma main_step_worker_at: "worker_at s p a \<Longrightarrow> worker_at (main_step s) p a"
  by (cases p) (auto simp add: worker_at_def main_step_slot_at)

lemma main_step_single: "single_inv E s \<Longrightarrow> single_inv E (main_step s)"
  unfolding single_inv_def
  using main_step_worker_at by (fastforce simp add: main_step_threads)

lemma single_inv_init: "single_inv E (init 1)"
  by (simp add: single_inv_def init_def new_thread_def has_solution_def below_0
      worker_at_def slot_at_def gen_at_def exI[of _ 0])


lemma mine_step_single:
  assumes "single_inv E s"
  shows "single_inv E (mine_step E t s)"
proof (cases "t < length (threads s)")
  case False
  then show ?thesis using assms by (simp add: mine_step_def)
next
  case True
  from assms obtain th a where th: "threads s = [th]"
    and sol: "has_solution (info th) \<longrightarrow>
              pc th = T_exit \<and> smallest_solution E (nonce (info th))
              \<and> solution_hash (info th) = sha1tostring (nonce_digest E (nonce (info th)))"
    and a: "below E a" and w: "worker_at s (pc th) a"
    unfolding single_inv_def by blast
  from True th have t: "t = 0" by simp
  show ?thesis
  proof (cases "pc th")
    case T_exit
    then have "mine_step E t s = s" using th t by (simp add: mine_step_def Let_def)
    with assms show ?thesis by simp
  next
    case T_claim
    with sol have ns: "\<not> has_solution (info th)" by auto
    from w T_claim have sl: "slot_at s a" by (simp add: worker_at_def)
    show ?thesis
    proof (cases "solution_found s")
      case flag: True
      then have "mine_step E t s = s\<lparr>threads := [th\<lparr>pc := T_exit\<rparr>]\<rparr>"
        using th t T_claim by (simp add: mine_step_def Let_def claim_def)
      then show ?thesis
        using ns below_0 by (auto simp add: single_inv_def worker_at_def)
    next
      case noflag: False
      show ?thesis
      proof (cases "task_pointer s")
        case None
        then have "mine_step E t s = s"
          using th t T_claim noflag by (simp add: mine_step_def Let_def claim_def)
        with assms show ?thesis by simp
      next
        case (Some task)
        then have st: "mine_step E t s
            = s\<lparr>task_pointer := None, threads := [th\<lparr>pc := T_mine task\<rparr>]\<rparr>"
          using th t T_claim noflag by (simp add: mine_step_def Let_def claim_def)
        have "worker_at (mine_step E t s) (T_mine task) a"
          using sl Some
          by (auto simp add: st worker_at_def slot_at_def gen_at_def split: main_pc.splits)
        then show ?thesis
          using ns a by (auto simp add: single_inv_def st)
      qed
    qed
  next
    case (T_mine task)
    with sol have ns: "\<not> has_solution (info th)" by auto
    from w T_mine have task: "task = task_at a" and sl: "slot_at s (a + 120)"
      by (simp_all add: worker_at_def)
    show ?thesis
    proof (cases "mine_loop E task 0")
      case None
      let ?y = "th\<lparr>pc := T_claim, info := (info th)\<lparr>num_inversions :=
                        num_inversions (info th) + word_of_nat NONCES_PER_TASK\<rparr>\<rparr>"
      have st: "mine_step E t s = s\<lparr>threads := [?y]\<rparr>"
        using th t T_mine None by (simp add: mine_step_def Let_def)
      have "\<forall>j < NONCES_PER_TASK. \<not> accepts E (a + word_of_nat j)"
        using None mine_task_None_iff[of E task] task by (simp add: nth_task_at)
      with a have "below E (a + 120)" by (rule below_step)
      moreover have "worker_at (mine_step E t s) T_claim (a + 120)"
        using sl
        by (auto simp add: st worker_at_def slot_at_def gen_at_def
            split: main_pc.splits option.splits)
      moreover have "\<not> has_solution (info ?y)"
        using ns by (simp add: has_solution_def)
      ultimately show ?thesis
        by (auto simp add: single_inv_def st)
    next
      case (Some r)
      obtain n d where r: "r = (n, d)" by (cases r)
      let ?y = "th\<lparr>pc := T_exit,
          info := (info th)\<lparr>nonce := n, solution_hash := sha1tostring d\<rparr>\<rparr>"
      have st: "mine_step E t s = s\<lparr>solution_found := True, threads := [?y]\<rparr>"
        using th t T_mine Some r by (simp add: mine_step_def Let_def)
      from mine_loop_Some[OF Some[unfolded r]] obtain j where j: "j < NONCES_PER_TASK"
        "n = task ! j" "d = nonce_digest E n" "accepts E n"
        "\<forall>l. 0 \<le> l \<and> l < j \<longrightarrow> \<not> accepts E (task ! l)"
        by blast
      have n: "n = a + word_of_nat j" using j(1,2) task by (simp add: nth_task_at)
      have "\<forall>l < j. \<not> accepts E (a + word_of_nat l)"
        using j(1,5) task by (simp add: nth_task_at)
      with a j(1) j(4)[unfolded n] have "smallest_solution E (a + word_of_nat j)"
        by (intro smallest_from_task) simp_all
      then have "smallest_solution E n" by (simp add: n)
      then show ?thesis
        using j(3) below_0 by (auto simp add: single_inv_def st worker_at_def)
    qed
  qed
qed

lemma step_single: "single_inv E s \<Longrightarrow> single_inv E (step E e s)"
  by (cases e) (simp_all add: main_step_single mine_step_single)

lemma run_single: "single_inv E s \<Longrightarrow> single_inv E (run E evs s)"
  by (induction evs arbitrary: s) (simp_all add: step_single)

lemma single_thread_solutions:
  assumes "r \<in> set (solutions (records (run E evs (init 1))))"
  shows "smallest_solution E (nonce r)
       \<and> solution_hash r = sha1tostring (nonce_digest E (nonce r))"
proof -
  have "single_inv E (run E evs (init 1))"
    by (rule run_single[OF single_inv_init])
  then show ?thesis
    using assms by (auto simp add: single_inv_def records_def set_solutions)
qed

lemma mine_loop_first:
  "i \<le> j \<Longrightarrow> j < NONCES_PER_TASK \<Longrightarrow> accepts E (task ! j) \<Longrightarrow>
   (\<forall>l. i \<le> l \<and> l < j \<longrightarrow> \<not> accepts E (task ! l)) \<Longrightarrow>
   mine_loop E task i = Some (task ! j, nonce_digest E (task ! j))"
proof (induction E task i rule: mine_loop.induct)
  case (1 E task i)
  have lt: "i < NONCES_PER_TASK" using 1(2,3) by simp
  show ?case
  proof (cases "i = j")
    case True
    then show ?thesis using lt 1(4) by (subst mine_loop.simps) simp
  next
    case False
    with 1(2) have ij: "i + 1 \<le> j" and "i < j" by simp_all
    then have na: "\<not> accepts E (task ! i)" using 1(5) by simp
    have "mine_loop E task (i + 1) = Some (task ! j, nonce_digest E (task ! j))"
      using 1(5) by (intro 1(1)[OF lt na ij 1(3) 1(4)]) simp
    then show ?thesis using lt na by (subst mine_loop.simps) simp
  qed
qed

lemma run_append: "run E (xs @ ys) s = run E ys (run E xs s)"
  by (induction xs arbitrary: s) simp_all

lemma even_120k: "even (word_of_nat (120 * k) :: 64 word)"
  by simp

lemma fill_idle:
  "main_step (idle_state k) =
     (idle_state k)\<lparr>current_nonce := word_of_nat (120 * k) + 120,
                    main_at := M_publish (task_at (word_of_nat (120 * k)))\<rparr>"
  using even_below_max[OF even_120k[of k]]
  by (simp add: main_step_def idle_state_def new_task_eq del: of_nat_mult)

lemma claim_idle:
  "run E [Main, Main, Worker 0] (idle_state k) =
     (idle_state k)\<lparr>current_nonce := word_of_nat (120 * k) + 120,
       threads := [\<lparr>pc = T_mine (task_at (word_of_nat (120 * k))),
                    info = \<lparr>thread_id = 0, num_inversions = word_of_nat (120 * k), nonce = 0,
                            solution_hash = []\<rparr>\<rparr>]\<rparr>"
  by (simp add: fill_idle del: of_nat_mult)
     (simp add: main_step_def publish_def mine_step_def claim_def idle_state_def Let_def
        del: of_nat_mult)

lemma round_miss:
  assumes "\<forall>j < NONCES_PER_TASK. \<not> accepts E (word_of_nat (120 * k) + word_of_nat j)"
  shows "run E [Main, Main, Worker 0, Worker 0] (idle_state k) = idle_state (Suc k)"
proof -
  have "mine_loop E (task_at (word_of_nat (120 * k))) 0 = None"
    using assms by (simp add: mine_task_None_iff nth_task_at del: of_nat_mult)
  moreover have "run E [Main, Main, Worker 0, Worker 0] (idle_state k)
      = mine_step E 0 (run E [Main, Main, Worker 0] (idle_state k))"
    using run_append[of E "[Main, Main, Worker 0]" "[Worker 0]" "idle_state k"] by simp
  ultimately show ?thesis
    by (simp only: claim_idle)
       (simp add: mine_step_def Let_def idle_state_def NONCES_PER_TASK_def)
qed

lemma rounds_miss:
  "(\<forall>i. 120 * k \<le> i \<and> i < 120 * (k + m) \<longrightarrow> \<not> accepts E (word_of_nat i)) \<Longrightarrow>
   run E (rounds m) (idle_state k) = idle_state (k + m)"
proof (induction m arbitrary: k)
  case 0
  show ?case by simp
next
  case (Suc m)
  have "\<forall>j < NONCES_PER_TASK. \<not> accepts E (word_of_nat (120 * k) + word_of_nat j)"
  proof (intro allI impI)
    fix j assume "j < NONCES_PER_TASK"
    then have "120 * k \<le> 120 * k + j \<and> 120 * k + j < 120 * (k + Suc m)"
      by (simp add: NONCES_PER_TASK_def)
    with Suc.prems have "\<not> accepts E (word_of_nat (120 * k + j))" by blast
    then show "\<not> accepts E (word_of_nat (120 * k) + word_of_nat j)" by simp
  qed
  then have r: "run E [Main, Main, Worker 0, Worker 0] (idle_state k) = idle_state (Suc k)"
    by (rule round_miss)
  have "run E (rounds m) (idle_state (Suc k)) = idle_state (Suc k + m)"
    using Suc.prems by (intro Suc.IH) simp
  then show ?case
    using r run_append[of E "[Main, Main, Worker 0, Worker 0]" "rounds m" "idle_state k"]
    by simp
qed

lemma round_hit:
  assumes "j < NONCES_PER_TASK" and "accepts E (word_of_nat (120 * k) + word_of_nat j)"
    and "\<forall>l < j. \<not> accepts E (word_of_nat (120 * k) + word_of_nat l)"
  shows "run E [Main, Main, Worker 0, Worker 0, Main, Main] (idle_state k)
       = found_state E k (word_of_nat (120 * k) + word_of_nat j)"
proof -
  define c :: "64 word" where "c = word_of_nat (120 * k)"
  define r where "r = \<lparr>thread_id = 0, num_inversions = c, nonce = 0, solution_hash = []\<rparr>"
  define s3 where "s3 = \<lparr>current_nonce = c + 120, task_pointer = None,
      solution_found = False, main_at = M_fill,
      threads = [\<lparr>pc = T_mine (task_at c), info = r\<rparr>]\<rparr>"
  define y where "y = \<lparr>pc = T_exit,
      info = r\<lparr>nonce := c + word_of_nat j,
               solution_hash := sha1tostring (nonce_digest E (c + word_of_nat j))\<rparr>\<rparr>"
  have "mine_loop E (task_at c) 0 = Some (task_at c ! j, nonce_digest E (task_at c ! j))"
    using assms unfolding c_def[symmetric]
    by (intro mine_loop_first) (simp_all add: nth_task_at)
  then have ml: "mine_loop E (task_at c) 0
      = Some (c + word_of_nat j, nonce_digest E (c + word_of_nat j))"
    using assms(1) by (simp add: nth_task_at)
  have 3: "run E [Main, Main, Worker 0] (idle_state k) = s3"
    unfolding claim_idle by (simp add: idle_state_def s3_def c_def r_def del: of_nat_mult)
  have 4: "mine_step E 0 s3 = s3\<lparr>solution_found := True, threads := [y]\<rparr>"
    using mine_step_found[of 0 s3 "task_at c" E, OF _ _ ml]
    by (simp add: s3_def y_def)
  have e: "c + 120 < UINT64_MAX"
    by (rule even_below_max) (simp add: c_def)
  have 5: "main_step (s3\<lparr>solution_found := True, threads := [y]\<rparr>)
      = s3\<lparr>solution_found := True, threads := [y], current_nonce := c + 240,
            main_at := M_publish (task_at (c + 120))\<rparr>"
    using e by (simp add: main_step_def s3_def new_task_eq)
  have 6: "main_step (s3\<lparr>solution_found := True, threads := [y], current_nonce := c + 240,
            main_at := M_publish (task_at (c + 120))\<rparr>)
      = s3\<lparr>solution_found := True, threads := [y], current_nonce := c + 240,
            main_at := M_exit\<rparr>"
    by (simp add: main_step_def publish_def s3_def)
  have "run E [Main, Main, Worker 0, Worker 0, Main, Main] (idle_state k)
      = main_step (main_step (mine_step E 0 (run E [Main, Main, Worker 0] (idle_state k))))"
    using run_append[of E "[Main, Main, Worker 0]" "[Worker 0, Main, Main]" "idle_state k"]
    by simp
  also have "\<dots> = s3\<lparr>solution_found := True, threads := [y], current_nonce := c + 240,
            main_at := M_exit\<rparr>"
    by (simp only: 3 4 5 6)
  also have "\<dots> = found_state E k (c + word_of_nat j)"
    by (simp add: s3_def y_def r_def found_state_def c_def)
  finally show ?thesis by (simp only: c_def)
qed

lemma init_idle: "init 1 = idle_state 0"
  by (simp add: init_def idle_state_def new_thread_def)

lemma single_schedule_run:
  assumes "smallest_solution E c"
  shows "run E (single_schedule (unat c div 120)) (init 1) = found_state E (unat c div 120) c"
proof -
  let ?k = "unat c div 120" and ?j = "unat c mod 120"
  have c: "c = word_of_nat (120 * ?k) + word_of_nat ?j"
  proof -
    have u: "(word_of_nat (unat c) :: 64 word) = c" by simp
    have "120 * ?k + ?j = unat c" by simp
    then have "(word_of_nat (120 * ?k + ?j) :: 64 word) = c" by (simp only: u)
    then show ?thesis by (simp only: of_nat_add)
  qed
  have fail: "\<not> accepts E (word_of_nat i)" if "i < unat c" for i
    using assms that by (simp add: smallest_solution_def)
  have "\<forall>i. 120 * 0 \<le> i \<and> i < 120 * (0 + ?k) \<longrightarrow> \<not> accepts E (word_of_nat i)"
  proof (intro allI impI)
    fix i assume "120 * 0 \<le> i \<and> i < 120 * (0 + ?k)"
    then have "i < unat c" by simp
    then show "\<not> accepts E (word_of_nat i)" by (rule fail)
  qed
  then have r: "run E (rounds ?k) (idle_state 0) = idle_state (0 + ?k)"
    by (rule rounds_miss)
  have j: "?j < NONCES_PER_TASK" by (simp add: NONCES_PER_TASK_def)
  have acc: "accepts E (word_of_nat (120 * ?k) + word_of_nat ?j)"
    using assms c by (simp add: smallest_solution_def)
  have "\<forall>l < ?j. \<not> accepts E (word_of_nat (120 * ?k) + word_of_nat l)"
  proof (intro allI impI)
    fix l assume "l < ?j"
    moreover have "unat c = 120 * ?k + ?j" by simp
    ultimately have "120 * ?k + l < unat c" by linarith
    from fail[OF this] show "\<not> accepts E (word_of_nat (120 * ?k) + word_of_nat l)" by simp
  qed
  then have h: "run E [Main, Main, Worker 0, Worker 0, Main, Main] (idle_state ?k)
      = found_state E ?k (word_of_nat (120 * ?k) + word_of_nat ?j)"
    by (rule round_hit[OF j acc])
  have "run E (single_schedule ?k) (init 1)
      = run E [Main, Main, Worker 0, Worker 0, Main, Main] (run E (rounds ?k) (idle_state 0))"
    by (simp only: single_schedule_def run_append init_idle)
  also have "\<dots> = run E [Main, Main, Worker 0, Worker 0, Main, Main] (idle_state ?k)"
    by (simp only: r add_0)
  also have "\<dots> = found_state E ?k c"
    using h c by (simp only:)
  finally show ?thesis .
qed

lemma smallest_solution_exists:
  assumes "accepts E x"
  shows "\<exists>c. smallest_solution E c \<and> c \<le> x"
proof -
  define P where "P k \<longleftrightarrow> k \<le> unat x \<and> accepts E (word_of_nat k)" for k
  have "P (unat x)" using assms by (simp add: P_def)
  then obtain k where k: "P k" and least: "\<forall>l < k. \<not> P l"
    using exists_least_iff[of P] by blast
  have kx: "k \<le> unat x" using k by (simp add: P_def)
  have "unat x < 2 ^ 64" using unsigned_less[of x, where 'a=nat] by simp
  with kx have u: "unat (word_of_nat k :: 64 word) = k"
    by (intro unat_of_nat_64) simp
  have "\<not> accepts E (word_of_nat l)" if "l \<in> set [0..<unat (word_of_nat k :: 64 word)]" for l
  proof -
    from that u have "l < k" by simp
    with least have "\<not> P l" by blast
    moreover have "l \<le> unat x" using \<open>l < k\<close> kx by simp
    ultimately show ?thesis by (simp add: P_def)
  qed
  then have "smallest_solution E (word_of_nat k)"
    using k by (simp add: smallest_solution_def P_def)
  moreover have "(word_of_nat k :: 64 word) \<le> x"
    using kx u by (simp add: word_le_nat_alt)
  ultimately show ?thesis by blast
qed

lemma sequential_search_none:
  "(\<forall>n. \<not> accepts E n) \<Longrightarrow> sequential_search E fuel c = None"
  by (induction fuel arbitrary: c) simp_all

lemma sha1tostring_empty: "sha1tostring d = [] \<longleftrightarrow> d = []"
  by (cases d) simp_all

lemma toy_smallest: "smallest_solution (toy_env 8) 130"
proof -
  let ?r = "\<lparr>thread_id = 0, num_inversions = 120, nonce = 130,
         solution_hash = ''0000000000000000000000000000000000000000''\<rparr>"
  have "?r \<in> set (solutions (records (run (toy_env 8) toy_schedule (init 1))))"
    unfolding toy_run by (simp add: records_def has_solution_def)
  from single_thread_solutions[OF this] show ?thesis by simp
qed

text \<open>
  C6. When \<open>c\<close> is the smallest candidate that passes the test: the sequential oracle,
  run from candidate 0 with more than \<open>c\<close> steps of fuel, stops exactly at \<open>c\<close>; along
  every schedule of the run with a single worker, a record that carries a solution carries
  \<open>c\<close> and its digest; and the schedule that serves the worker in turn ends, with
  \<^verbatim>\<open>main\<close> and the worker finished and \<open>c\<close> in the record, which
  \<^verbatim>\<open>print_results\<close> reports when the digest is not empty. There is such a \<open>c\<close> as
  soon as some candidate passes (lemma \<open>smallest_solution_exists\<close>); when none does, the
  oracle returns nothing for any fuel (lemma \<open>sequential_search_none\<close>).
\<close>

theorem single_thread_finds_smallest:
  assumes "smallest_solution E c"
  shows "(\<forall>fuel. unat c < fuel \<longrightarrow> sequential_search E fuel 0 = Some c)
       \<and> (\<forall>r \<in> set (solutions (records (run E evs (init 1)))).
             nonce r = c \<and> solution_hash r = sha1tostring (nonce_digest E c))
       \<and> completed (run E (single_schedule (unat c div 120)) (init 1))
       \<and> map nonce (records (run E (single_schedule (unat c div 120)) (init 1))) = [c]
       \<and> map solution_hash (records (run E (single_schedule (unat c div 120)) (init 1)))
           = [sha1tostring (nonce_digest E c)]
       \<and> (nonce_digest E c \<noteq> [] \<longrightarrow>
            map nonce (solutions (records (run E (single_schedule (unat c div 120)) (init 1))))
              = [c])"
proof -
  have "\<forall>fuel. unat c < fuel \<longrightarrow> sequential_search E fuel 0 = Some c"
    using sequential_search_finds[OF assms] by blast
  moreover have "nonce r = c \<and> solution_hash r = sha1tostring (nonce_digest E c)"
    if "r \<in> set (solutions (records (run E evs (init 1))))" for r
  proof -
    from single_thread_solutions[OF that]
    have "smallest_solution E (nonce r)"
      and h: "solution_hash r = sha1tostring (nonce_digest E (nonce r))" by simp_all
    then have "nonce r = c" using assms by (intro smallest_solution_unique)
    with h show ?thesis by simp
  qed
  moreover have "completed (found_state E (unat c div 120) c)"
    by (simp add: completed_def found_state_def)
  moreover have "map nonce (records (found_state E (unat c div 120) c)) = [c]"
    by (simp add: records_def found_state_def)
  moreover have "map solution_hash (records (found_state E (unat c div 120) c))
      = [sha1tostring (nonce_digest E c)]"
    by (simp add: records_def found_state_def)
  moreover have "map nonce (solutions (records (found_state E (unat c div 120) c))) = [c]"
    if "nonce_digest E c \<noteq> []"
    using that by (simp add: records_def found_state_def has_solution_def sha1tostring_empty)
  ultimately show ?thesis
    unfolding single_schedule_run[OF assms] by blast
qed

theorem single_thread_finds_smallest_witness:
  "smallest_solution (toy_env 8) 130
   \<and> sequential_search (toy_env 8) 131 0 = Some 130
   \<and> completed (run (toy_env 8) (single_schedule 1) (init 1))
   \<and> map nonce (records (run (toy_env 8) (single_schedule 1) (init 1))) = [130]"
proof -
  have k: "unat (130 :: 64 word) div 120 = 1" by simp
  have f: "unat (130 :: 64 word) < 131" by simp
  from single_thread_finds_smallest[OF toy_smallest, unfolded k] f toy_smallest
  show ?thesis by blast
qed

subsection \<open>The tasks of a run that finds no solution\<close>

lemma never_accepts: "\<not> accepts never_env n"
proof -
  have "get_difficulty 32 = 0"
    by (simp add: get_difficulty_def get_difficulty_loop.simps)
  moreover have "hash_front (replicate 20 255) \<noteq> 0"
    by (simp add: hash_front_def)
  ultimately show ?thesis
    by (simp add: accepts_def never_env_def nonce_digest_def)
qed

lemma publications_append:
  "publications E (xs @ ys) s = publications E xs s @ publications E ys (run E xs s)"
  by (induction xs arbitrary: s) simp_all

lemma publications_round:
  "publications E [Main, Main, Worker 0, Worker 0] (idle_state k)
     = [task_at (word_of_nat (120 * k))]"
proof -
  let ?T = "task_at (word_of_nat (120 * k))"
  have 1: "main_step (idle_state k) =
     (idle_state k)\<lparr>current_nonce := word_of_nat (120 * k) + 120, main_at := M_publish ?T\<rparr>"
    by (rule fill_idle)
  have a: "main_at (idle_state k) = M_fill"
    by (simp add: idle_state_def)
  have b: "main_at (main_step (idle_state k)) = M_publish ?T"
    unfolding 1 by simp
  have c: "fst (publish ?T (main_step (idle_state k))) = P_published"
    unfolding 1 by (simp add: publish_def idle_state_def)
  show ?thesis
    by (simp add: a b c del: of_nat_mult)
qed

lemma publications_rounds:
  "(\<forall>i. 120 * k \<le> i \<and> i < 120 * (k + m) \<longrightarrow> \<not> accepts E (word_of_nat i)) \<Longrightarrow>
   publications E (rounds m) (idle_state k)
     = map (\<lambda>j. task_at (word_of_nat (120 * (k + j)))) [0..<m]"
proof (induction m arbitrary: k)
  case 0
  show ?case by simp
next
  case (Suc m)
  have "\<forall>j < NONCES_PER_TASK. \<not> accepts E (word_of_nat (120 * k) + word_of_nat j)"
  proof (intro allI impI)
    fix j assume "j < NONCES_PER_TASK"
    then have "120 * k \<le> 120 * k + j \<and> 120 * k + j < 120 * (k + Suc m)"
      by (simp add: NONCES_PER_TASK_def)
    with Suc.prems have "\<not> accepts E (word_of_nat (120 * k + j))" by blast
    then show "\<not> accepts E (word_of_nat (120 * k) + word_of_nat j)" by simp
  qed
  then have r: "run E [Main, Main, Worker 0, Worker 0] (idle_state k) = idle_state (Suc k)"
    by (rule round_miss)
  have ih: "publications E (rounds m) (idle_state (Suc k))
      = map (\<lambda>j. task_at (word_of_nat (120 * (Suc k + j)))) [0..<m]"
    using Suc.prems by (intro Suc.IH) simp
  have "publications E (rounds (Suc m)) (idle_state k)
      = task_at (word_of_nat (120 * k))
        # map (\<lambda>j. task_at (word_of_nat (120 * (Suc k + j)))) [0..<m]"
    using publications_append[of E "[Main, Main, Worker 0, Worker 0]" "rounds m" "idle_state k"]
    by (simp only: rounds.simps publications_round r ih) simp
  also have "\<dots> = map (\<lambda>j. task_at (word_of_nat (120 * (k + j)))) [0..<Suc m]"
    by (simp add: map_upt_Suc ac_simps del: upt_Suc of_nat_mult of_nat_add)
  finally show ?case .
qed

lemma never_publications:
  "publications never_env (rounds m) (init 1) = published m 0"
proof -
  have "publications never_env (rounds m) (init 1)
      = publications never_env (rounds m) (idle_state 0)"
    by (simp only: init_idle)
  also have "\<dots> = map (\<lambda>j. task_at (word_of_nat (120 * (0 + j)))) [0..<m]"
    by (rule publications_rounds) (simp add: never_accepts)
  also have "\<dots> = published m 0"
    by (simp add: published_0 del: of_nat_mult)
  finally show ?thesis .
qed

text \<open>
  Beyond the candidate space the model wraps around: the guard
  \<^verbatim>\<open>current_nonce < UINT64_MAX\<close> of line 103 is true for every multiple of 120 modulo
  \<open>2 ^ 64\<close> (lemma \<open>even_below_max\<close>). With a digest that never passes and one worker
  served in turn, task number 153722867280912930 starts at \<open>2 ^ 64 - 16\<close> and its cell
  16 holds the value 0 again.
\<close>

lemma published_after_exhaustion:
  "publications never_env (rounds 153722867280912931) (init 1) ! 153722867280912930 ! 16 = 0
   \<and> publications never_env (rounds 153722867280912931) (init 1) ! 0 ! 0 = 0
   \<and> 120 * 153722867280912930 + 16 = (2 ^ 64 :: nat)"
  unfolding never_publications by (simp add: nth_published)

end
